theory Spec2Isabelle
  imports Main "HOL-Library.AList"
begin

section \<open>The chunk-loading state of \<open>Blok::Server\<close> and \<open>Blok::LocalServer\<close>\<close>

text \<open>
  The development follows \<^verbatim>\<open>src/Blok/Server.hh\<close>. A \<^verbatim>\<open>Chunk*\<close> is either
  \<^verbatim>\<open>NULL\<close> or the address of a chunk; the type of chunks is left open.
\<close>

datatype 'c ptr = NULL | Ptr 'c

text \<open>
  Modelled from the spec: \<^verbatim>\<open>Blok.hh\<close>, which declares \<^verbatim>\<open>ChunkID\<close>, is not part
  of the sources at hand. The specification describes it as an opaque, hashable,
  equality-comparable coordinate key with three integer axes. Only equality of keys is
  ever used, so every operation below is polymorphic in the key type and this type is
  needed only where a concrete key is written down.
\<close>

datatype ChunkID = ChunkID int int int

text \<open>
  The worker thread \<^verbatim>\<open>T_chunkLoad_run\<close> is, between two critical sections, at one of
  two places: in the loop that waits for requests (before line 178), or between the two
  critical sections, in the generation loop (lines 186 to 196).
\<close>

datatype worker_pc = Waiting | Generating

text \<open>
  The fields of \<^verbatim>\<open>Server\<close> (lines 46 to 52), the generator owned by
  \<^verbatim>\<open>LocalServer\<close> (line 122) and the locals of the worker: its position and the
  map \<^verbatim>\<open>res\<close> of line 186. \<^verbatim>\<open>res\<close> is iterated in line 198, so it is kept as
  an association list; \<^verbatim>\<open>Set\<close> is a set, \<^verbatim>\<open>Map\<close> a partial function.
  The generator is an object that may change when it is called, so its state \<open>'g\<close>
  is part of the server.
\<close>

record ('k, 'c, 'g) server =
  chunkRequests :: "'k set"
  chunkRequestsInProgress :: "'k set"
  loadedChunks :: "'k \<rightharpoonup> 'c ptr"
  worldGen :: 'g
  pc :: worker_pc
  res :: "('k \<times> 'c ptr) list"

text \<open>
  The constructor \<^verbatim>\<open>LocalServer()\<close>: the three collections are default-constructed,
  hence empty, and the worker starts at the top of its loop.
\<close>

definition LocalServer :: "'g \<Rightarrow> ('k, 'c, 'g) server" where
  "LocalServer g =
     \<lparr>chunkRequests = {}, chunkRequestsInProgress = {}, loadedChunks = Map.empty,
      worldGen = g, pc = Waiting, res = []\<rparr>"

subsection \<open>\<^verbatim>\<open>Server::getChunk\<close> (lines 61 to 83)\<close>

text \<open>
  The whole body runs under \<^verbatim>\<open>L_chunks\<close>, so it is one atomic transition. It returns
  the pointer and the state it leaves.
\<close>

definition getChunk ::
  "'k \<Rightarrow> bool \<Rightarrow> ('k, 'c, 'g) server \<Rightarrow> 'c ptr \<times> ('k, 'c, 'g) server" where
  "getChunk cid request s =
     (case loadedChunks s cid of
        None \<Rightarrow>
          (NULL,
           if request then
             (if cid \<notin> chunkRequests s \<and> cid \<notin> chunkRequestsInProgress s
              then s\<lparr>chunkRequests := insert cid (chunkRequests s)\<rparr>
              else s)
           else s)
      | Some c \<Rightarrow> (c, s))"

subsection \<open>\<^verbatim>\<open>LocalServer::T_chunkLoad_run\<close> (lines 166 to 206)\<close>

text \<open>
  First critical section (lines 178 to 183), together with the declaration of the empty
  \<^verbatim>\<open>res\<close> in line 186.
\<close>

definition drain :: "('k, 'c, 'g) server \<Rightarrow> ('k, 'c, 'g) server" where
  "drain s =
     s\<lparr>chunkRequestsInProgress := chunkRequests s, chunkRequests := {},
       res := [], pc := Generating\<rparr>"

text \<open>
  One iteration of the generation loop (line 192),
  \<^verbatim>\<open>res[cid] = worldGen->getChunk(cid)\<close>. \<^verbatim>\<open>WG.hh\<close> is not part of the sources at
  hand, so the generator is a parameter \<open>wg\<close>: from its state and a key it gives the
  pointer it returns and its next state.
\<close>

definition generate ::
  "('g \<Rightarrow> 'k \<Rightarrow> 'c ptr \<times> 'g) \<Rightarrow> 'k \<Rightarrow> ('k, 'c, 'g) server \<Rightarrow> ('k, 'c, 'g) server" where
  "generate wg cid s =
     (case wg (worldGen s) cid of
        (c, g') \<Rightarrow> s\<lparr>res := AList.update cid c (res s), worldGen := g'\<rparr>)"

text \<open>The body of the loop of line 198: \<^verbatim>\<open>loadedChunks[elem.first] = elem.second\<close>.\<close>

definition store :: "'k \<times> 'c ptr \<Rightarrow> ('k, 'c, 'g) server \<Rightarrow> ('k, 'c, 'g) server" where
  "store elem s = s\<lparr>loadedChunks := (loadedChunks s)(fst elem \<mapsto> snd elem)\<rparr>"

text \<open>
  Second critical section (lines 197 to 202): the loop over \<^verbatim>\<open>res\<close>, then
  \<^verbatim>\<open>chunkRequestsInProgress.clear()\<close>. The iteration of the outer loop ends here, so
  \<^verbatim>\<open>res\<close> goes out of scope and the worker is back at the top.
\<close>

definition commit :: "('k, 'c, 'g) server \<Rightarrow> ('k, 'c, 'g) server" where
  "commit s = (fold store (res s) s)\<lparr>chunkRequestsInProgress := {}, res := [], pc := Waiting\<rparr>"

subsection \<open>Interleavings\<close>

text \<open>
  Consumer threads and the worker interleave at the granularity of the critical sections.
  An action is a call of \<^verbatim>\<open>getChunk\<close> by some consumer, or a move of the worker:
  \<^item> \<open>Drain\<close>: the worker has seen \<^verbatim>\<open>chunkRequests.size() != 0\<close> (line 174) and runs
    the first critical section. Only the worker removes keys from \<^verbatim>\<open>chunkRequests\<close>,
    so what it saw still holds when it takes the lock.
  \<^item> \<open>Generate cid\<close>: one iteration of the loop of line 190, for a key of
    \<^verbatim>\<open>chunkRequestsInProgress\<close> that the loop has not visited yet. The order in which
    the container yields its keys is left open.
  \<^item> \<open>Commit\<close>: the loop of line 190 has visited every key, and the worker runs the
    second critical section.
  An action that the program cannot take in a state gives \<open>None\<close>.
\<close>

datatype 'k action = GetChunk 'k bool | Drain | Generate 'k | Commit

fun exec ::
  "('g \<Rightarrow> 'k \<Rightarrow> 'c ptr \<times> 'g) \<Rightarrow> 'k action \<Rightarrow> ('k, 'c, 'g) server \<Rightarrow> ('k, 'c, 'g) server option"
  where
  "exec wg (GetChunk cid request) s = Some (snd (getChunk cid request s))"
| "exec wg Drain s =
     (if pc s = Waiting \<and> chunkRequests s \<noteq> {} then Some (drain s) else None)"
| "exec wg (Generate cid) s =
     (if pc s = Generating \<and> cid \<in> chunkRequestsInProgress s \<and> cid \<notin> fst ` set (res s)
      then Some (generate wg cid s) else None)"
| "exec wg Commit s =
     (if pc s = Generating \<and> chunkRequestsInProgress s \<subseteq> fst ` set (res s)
      then Some (commit s) else None)"

fun run ::
  "('g \<Rightarrow> 'k \<Rightarrow> 'c ptr \<times> 'g) \<Rightarrow> 'k action list \<Rightarrow> ('k, 'c, 'g) server
     \<Rightarrow> ('k, 'c, 'g) server option" where
  "run wg [] s = Some s"
| "run wg (a # as) s = (case exec wg a s of None \<Rightarrow> None | Some s' \<Rightarrow> run wg as s')"

subsection \<open>Notions used in the statements and proofs\<close>

text \<open>
  The invariant of the reachable states: the three collections are pairwise disjoint, the
  keys of \<^verbatim>\<open>res\<close> are distinct keys of the batch in progress, a waiting worker has no
  batch and no results, and the two sets are finite.
\<close>

definition server_inv :: "('k, 'c, 'g) server \<Rightarrow> bool" where
  "server_inv s \<longleftrightarrow>
     chunkRequests s \<inter> chunkRequestsInProgress s = {} \<and>
     chunkRequests s \<inter> dom (loadedChunks s) = {} \<and>
     chunkRequestsInProgress s \<inter> dom (loadedChunks s) = {} \<and>
     fst ` set (res s) \<subseteq> chunkRequestsInProgress s \<and>
     distinct (map fst (res s)) \<and>
     (if pc s = Waiting then chunkRequestsInProgress s = {} \<and> res s = [] else True) \<and>
     finite (chunkRequests s) \<and> finite (chunkRequestsInProgress s)"

text \<open>A key has been requested when it is in one of the three collections.\<close>

definition requested :: "('k, 'c, 'g) server \<Rightarrow> 'k \<Rightarrow> bool" where
  "requested s x \<longleftrightarrow>
     x \<in> chunkRequests s \<or> x \<in> chunkRequestsInProgress s \<or> loadedChunks s x \<noteq> None"

text \<open>
  The generator has been called for a key when its result is in \<^verbatim>\<open>res\<close> or in the
  loaded map.
\<close>

definition generated :: "('k, 'c, 'g) server \<Rightarrow> 'k \<Rightarrow> bool" where
  "generated s x \<longleftrightarrow> x \<in> fst ` set (res s) \<or> loadedChunks s x \<noteq> None"

text \<open>
  How many commits of the worker a requested key is away from being loaded, at most: none
  when it is loaded, one when it is in the batch in progress or pending with the worker
  waiting, two when it is pending while another batch is in progress.
\<close>

definition commits_left :: "('k, 'c, 'g) server \<Rightarrow> 'k \<Rightarrow> nat" where
  "commits_left s x =
     (if loadedChunks s x \<noteq> None then 0
      else if x \<in> chunkRequestsInProgress s then 1
      else if pc s = Waiting then 1 else 2)"

text \<open>
  A sample generator for concrete runs: its state counts the calls, and each call
  returns a fresh address, as an allocating generator does.
\<close>

definition counterWG :: "nat \<Rightarrow> 'k \<Rightarrow> nat ptr \<times> nat" where
  "counterWG g cid = (Ptr g, Suc g)"

section \<open>Basic facts\<close>

lemma server_inv_LocalServer: "server_inv (LocalServer g)"
  by (simp add: server_inv_def LocalServer_def)

lemma fold_store_fields [simp]:
  "chunkRequests (fold store xs s) = chunkRequests s"
  "chunkRequestsInProgress (fold store xs s) = chunkRequestsInProgress s"
  "worldGen (fold store xs s) = worldGen s"
  "pc (fold store xs s) = pc s"
  "res (fold store xs s) = res s"
  by (induction xs arbitrary: s) (simp_all add: store_def)

lemma fold_store_loaded:
  "loadedChunks (fold store xs s) = loadedChunks s ++ map_of (rev xs)"
proof (induction xs arbitrary: s)
  case Nil
  then show ?case by simp
next
  case (Cons x xs)
  have "loadedChunks (fold store (x # xs) s) = loadedChunks (store x s) ++ map_of (rev xs)"
    by (simp add: Cons.IH)
  also have "loadedChunks (store x s) = loadedChunks s ++ [fst x \<mapsto> snd x]"
    by (simp add: store_def)
  also have "(loadedChunks s ++ [fst x \<mapsto> snd x]) ++ map_of (rev xs)
               = loadedChunks s ++ map_of (rev (x # xs))"
    by (cases x) simp
  finally show ?case .
qed

lemma dom_fold_store: "dom (loadedChunks (fold store xs s)) = dom (loadedChunks s) \<union> fst ` set xs"
  by (simp add: fold_store_loaded dom_map_of_conv_image_fst Un_commute)

lemma server_inv_getChunk: "server_inv s \<Longrightarrow> server_inv (snd (getChunk cid request s))"
  by (auto simp: server_inv_def getChunk_def split: option.splits if_splits)

lemma server_inv_drain: "server_inv s \<Longrightarrow> pc s = Waiting \<Longrightarrow> server_inv (drain s)"
  by (auto simp: server_inv_def drain_def)

lemma server_inv_generate:
  "server_inv s \<Longrightarrow> pc s = Generating \<Longrightarrow> cid \<in> chunkRequestsInProgress s \<Longrightarrow> server_inv (generate wg cid s)"
  by (auto simp: server_inv_def generate_def dom_update distinct_update split: prod.splits)

lemma server_inv_commit: "server_inv s \<Longrightarrow> chunkRequestsInProgress s \<subseteq> fst ` set (res s) \<Longrightarrow> server_inv (commit s)"
  by (auto simp: server_inv_def commit_def dom_fold_store)

lemma server_inv_exec: "server_inv s \<Longrightarrow> exec wg a s = Some s' \<Longrightarrow> server_inv s'"
  by (cases a) (auto simp: server_inv_getChunk server_inv_drain server_inv_generate server_inv_commit split: if_splits)

lemma server_inv_run: "server_inv s \<Longrightarrow> run wg as s = Some s' \<Longrightarrow> server_inv s'"
  by (induction as arbitrary: s) (auto split: option.splits dest: server_inv_exec)

lemma run_append:
  "run wg (as @ bs) s = (case run wg as s of None \<Rightarrow> None | Some s' \<Rightarrow> run wg bs s')"
  by (induction as arbitrary: s) (auto split: option.splits)

lemma run_snoc:
  "run wg (as @ [a]) s = (case run wg as s of None \<Rightarrow> None | Some s' \<Rightarrow> exec wg a s')"
  by (simp add: run_append split: option.splits)

lemma commit_loaded:
  "loadedChunks (commit s) = loadedChunks s ++ map_of (rev (res s))"
  by (simp add: commit_def fold_store_loaded)

lemma commit_loaded_None:
  "loadedChunks (commit s) x = None \<longleftrightarrow> loadedChunks s x = None \<and> x \<notin> fst ` set (res s)"
  by (auto simp: commit_loaded map_of_eq_None_iff)

lemma server_inv_loaded:
  "server_inv s \<Longrightarrow> loadedChunks s x \<noteq> None \<Longrightarrow>
     x \<notin> chunkRequests s \<and> x \<notin> chunkRequestsInProgress s \<and> x \<notin> fst ` set (res s)"
  unfolding server_inv_def by blast

lemma server_inv_Waiting: "server_inv s \<Longrightarrow> pc s = Waiting \<Longrightarrow> chunkRequestsInProgress s = {} \<and> res s = []"
  unfolding server_inv_def by simp

lemma server_inv_res: "server_inv s \<Longrightarrow> x \<in> fst ` set (res s) \<Longrightarrow> x \<in> chunkRequestsInProgress s \<and> x \<notin> chunkRequests s"
  unfolding server_inv_def by blast

lemma exec_loaded_mono:
  assumes "server_inv s" and "exec wg a s = Some s'"
  shows "loadedChunks s \<subseteq>\<^sub>m loadedChunks s'"
proof (cases a)
  case (GetChunk cid request)
  with assms show ?thesis by (auto simp: getChunk_def split: option.splits)
next
  case Drain
  with assms show ?thesis by (auto simp: drain_def split: if_splits)
next
  case (Generate cid)
  with assms show ?thesis by (auto simp: generate_def split: if_splits prod.splits)
next
  case Commit
  have "loadedChunks s x = (loadedChunks s ++ map_of (rev (res s))) x"
    if "x \<in> dom (loadedChunks s)" for x
  proof -
    from that assms(1) have "x \<notin> fst ` set (res s)"
      unfolding server_inv_def by blast
    then have "map_of (rev (res s)) x = None"
      by (simp add: map_of_eq_None_iff)
    then show ?thesis by (simp add: map_add_def)
  qed
  with Commit assms show ?thesis
    by (auto simp: map_le_def commit_loaded split: if_splits)
qed

lemma run_loaded_mono:
  "server_inv s \<Longrightarrow> run wg as s = Some s' \<Longrightarrow> loadedChunks s \<subseteq>\<^sub>m loadedChunks s'"
proof (induction as arbitrary: s)
  case Nil
  then show ?case by simp
next
  case (Cons a as)
  then obtain t where t: "exec wg a s = Some t" "run wg as t = Some s'"
    by (auto split: option.splits)
  with Cons.prems have "server_inv t" by (auto dest: server_inv_exec)
  with Cons.IH t have "loadedChunks t \<subseteq>\<^sub>m loadedChunks s'" by blast
  moreover from Cons.prems t have "loadedChunks s \<subseteq>\<^sub>m loadedChunks t"
    by (auto dest: exec_loaded_mono)
  ultimately show ?case by (rule map_le_trans[rotated])
qed

lemma requested_exec:
  assumes "server_inv s" and "exec wg a s = Some s'" and "requested s x"
  shows "requested s' x"
proof (cases a)
  case (GetChunk cid request)
  with assms show ?thesis
    by (auto simp: requested_def getChunk_def split: option.splits if_splits)
next
  case Drain
  with assms server_inv_Waiting[of s] show ?thesis
    by (auto simp: requested_def drain_def split: if_splits)
next
  case (Generate cid)
  with assms show ?thesis
    by (auto simp: requested_def generate_def split: if_splits prod.splits)
next
  case Commit
  with assms have s': "s' = commit s" and sub: "chunkRequestsInProgress s \<subseteq> fst ` set (res s)"
    by (auto split: if_splits)
  have [simp]: "chunkRequests (commit s) = chunkRequests s"
    by (simp add: commit_def)
  from assms(3) sub show ?thesis
    unfolding s' requested_def commit_loaded_None by auto
qed

lemma commits_left_exec:
  assumes "server_inv s" and "exec wg a s = Some s'" and "requested s x"
  shows "commits_left s' x \<le> commits_left s x - (if a = Commit then 1 else 0)"
proof (cases a)
  case (GetChunk cid request)
  with assms show ?thesis
    by (auto simp: commits_left_def getChunk_def split: option.splits if_splits)
next
  case Drain
  with assms server_inv_Waiting[of s] show ?thesis
    by (auto simp: commits_left_def requested_def drain_def split: if_splits)
next
  case (Generate cid)
  with assms show ?thesis
    by (auto simp: commits_left_def generate_def split: if_splits prod.splits)
next
  case Commit
  with assms have s': "s' = commit s" and sub: "chunkRequestsInProgress s \<subseteq> fst ` set (res s)"
    and g: "pc s = Generating"
    by (auto split: if_splits)
  have [simp]: "chunkRequestsInProgress (commit s) = {}" "pc (commit s) = Waiting"
    by (simp_all add: commit_def)
  show ?thesis
  proof (cases "loadedChunks s x \<noteq> None \<or> x \<in> chunkRequestsInProgress s")
    case True
    with sub have "loadedChunks (commit s) x \<noteq> None"
      unfolding commit_loaded_None by auto
    then show ?thesis unfolding s' commits_left_def by simp
  next
    case False
    with g have "commits_left s x = 2" unfolding commits_left_def by simp
    moreover have "commits_left (commit s) x \<le> 1" unfolding commits_left_def by simp
    ultimately show ?thesis unfolding s' Commit by simp
  qed
qed

lemma commits_left_run:
  "server_inv s \<Longrightarrow> run wg as s = Some s' \<Longrightarrow> requested s x \<Longrightarrow>
     commits_left s' x \<le> commits_left s x - count_list as Commit"
proof (induction as arbitrary: s)
  case Nil
  then show ?case by simp
next
  case (Cons a as)
  then obtain t where t: "exec wg a s = Some t" "run wg as t = Some s'"
    by (auto split: option.splits)
  from Cons.prems t have "server_inv t" "requested t x"
    by (auto dest: server_inv_exec requested_exec)
  with Cons.IH t have "commits_left s' x \<le> commits_left t x - count_list as Commit"
    by blast
  moreover from Cons.prems(1) t(1) Cons.prems(3)
  have "commits_left t x \<le> commits_left s x - (if a = Commit then 1 else 0)"
    by (rule commits_left_exec)
  ultimately show ?case by auto
qed

lemma generated_exec:
  assumes "server_inv s" and "exec wg a s = Some s'"
  shows "(of_bool (generated s' x) :: nat) =
           of_bool (generated s x) + (if a = Generate x then 1 else 0)"
proof (cases a)
  case (GetChunk cid request)
  with assms show ?thesis
    by (auto simp: generated_def getChunk_def split: option.splits if_splits)
next
  case Drain
  with assms server_inv_Waiting[of s] show ?thesis
    by (auto simp: generated_def drain_def split: if_splits)
next
  case (Generate cid)
  with assms have s': "s' = generate wg cid s" and c: "cid \<in> chunkRequestsInProgress s"
    "cid \<notin> fst ` set (res s)"
    by (auto split: if_splits)
  have l: "loadedChunks s cid = None"
  proof (rule ccontr)
    assume "loadedChunks s cid \<noteq> None"
    from server_inv_loaded[OF assms(1) this] c show False by simp
  qed
  have r: "fst ` set (res (generate wg cid s)) = insert cid (fst ` set (res s))"
    "loadedChunks (generate wg cid s) = loadedChunks s"
    by (simp_all add: generate_def dom_update split: prod.splits)
  show ?thesis
    unfolding s' Generate generated_def r using c l by auto
next
  case Commit
  with assms have s': "s' = commit s"
    by (auto split: if_splits)
  have [simp]: "res (commit s) = []"
    by (simp add: commit_def)
  show ?thesis
    unfolding s' Commit generated_def commit_loaded_None by auto
qed

lemma generated_run:
  "server_inv s \<Longrightarrow> run wg as s = Some s' \<Longrightarrow>
     (of_bool (generated s' x) :: nat) = of_bool (generated s x) + count_list as (Generate x)"
proof (induction as arbitrary: s)
  case Nil
  then show ?case by simp
next
  case (Cons a as)
  then obtain t where t: "exec wg a s = Some t" "run wg as t = Some s'"
    by (auto split: option.splits)
  from Cons.prems t have "server_inv t" by (auto dest: server_inv_exec)
  with Cons.IH t
  have "(of_bool (generated s' x) :: nat) = of_bool (generated t x) + count_list as (Generate x)"
    by blast
  moreover from Cons.prems(1) t(1)
  have "(of_bool (generated t x) :: nat) =
          of_bool (generated s x) + (if a = Generate x then 1 else 0)"
    by (rule generated_exec)
  ultimately show ?case by simp
qed

lemmas model_defs = LocalServer_def getChunk_def drain_def generate_def commit_def store_def counterWG_def

section \<open>Lookup: \<^verbatim>\<open>getChunk\<close>\<close>

text \<open>
  Claim C3. In every state and for every key, \<^verbatim>\<open>getChunk(id, request)\<close> behaves as
  follows. If the key is loaded, it returns the stored pointer (and leaves the state as it is).
  If the key is not loaded and \<^verbatim>\<open>request\<close> is true, it returns \<^verbatim>\<open>NULL\<close> and
  inserts the key into the pending set, unless the key is already pending or in progress, in
  which case the state stays as it is. If the key is not loaded and \<^verbatim>\<open>request\<close> is
  false, it returns \<^verbatim>\<open>NULL\<close> and changes nothing. \<open>getChunk\<close> is a total function
  into pointers: a missing chunk is the value \<^verbatim>\<open>NULL\<close>, there is no error result.
\<close>

theorem getChunk_cases:
  "(\<forall>c. loadedChunks s cid = Some c \<longrightarrow> getChunk cid request s = (c, s)) \<and>
   (loadedChunks s cid = None \<and> request \<longrightarrow>
      fst (getChunk cid request s) = NULL \<and>
      snd (getChunk cid request s) =
        (if cid \<in> chunkRequests s \<or> cid \<in> chunkRequestsInProgress s then s
         else s\<lparr>chunkRequests := insert cid (chunkRequests s)\<rparr>)) \<and>
   (loadedChunks s cid = None \<and> \<not> request \<longrightarrow> getChunk cid request s = (NULL, s))"
  by (simp add: getChunk_def)

theorem getChunk_cases_witness:
  "fst (getChunk (ChunkID 0 0 0) True
          ((LocalServer (0::nat))\<lparr>loadedChunks := [ChunkID 0 0 0 \<mapsto> Ptr (7::nat)]\<rparr>)) = Ptr 7 \<and>
   fst (getChunk (ChunkID 0 0 0) True (LocalServer (0::nat) :: (ChunkID, nat, nat) server)) = NULL \<and>
   chunkRequests (snd (getChunk (ChunkID 0 0 0) True (LocalServer (0::nat) :: (ChunkID, nat, nat) server)))
     = {ChunkID 0 0 0} \<and>
   getChunk (ChunkID 0 0 0) False (LocalServer (0::nat) :: (ChunkID, nat, nat) server)
     = (NULL, LocalServer 0)"
  using getChunk_cases [of "(LocalServer (0::nat))\<lparr>loadedChunks := [ChunkID 0 0 0 \<mapsto> Ptr (7::nat)]\<rparr>"
                           "ChunkID 0 0 0" True]
        getChunk_cases [of "LocalServer (0::nat) :: (ChunkID, nat, nat) server" "ChunkID 0 0 0" True]
        getChunk_cases [of "LocalServer (0::nat) :: (ChunkID, nat, nat) server" "ChunkID 0 0 0" False]
  by (simp add: LocalServer_def)

text \<open>
  Claim C9. What \<^verbatim>\<open>getChunk\<close> returns does not depend on the request flag: on the same
  state, \<^verbatim>\<open>getChunk(id, true)\<close> and \<^verbatim>\<open>getChunk(id, false)\<close> return the same pointer.
\<close>

theorem getChunk_flag_independent:
  "fst (getChunk cid True s) = fst (getChunk cid False s)"
  by (simp add: getChunk_def split: option.splits)

section \<open>Invariants of the reachable states\<close>

text \<open>
  Claim C2. In every state reached from the constructor by any interleaving of consumer
  calls and worker moves, the pending set, the in-progress set and the keys of the loaded
  map are pairwise disjoint.
\<close>

theorem collections_disjoint:
  assumes "run wg as (LocalServer g) = Some s"
  shows "chunkRequests s \<inter> chunkRequestsInProgress s = {} \<and>
         chunkRequests s \<inter> dom (loadedChunks s) = {} \<and>
         chunkRequestsInProgress s \<inter> dom (loadedChunks s) = {}"
proof -
  from server_inv_LocalServer assms have "server_inv s" by (rule server_inv_run)
  then show ?thesis unfolding server_inv_def by simp
qed

theorem collections_disjoint_witness:
  "\<exists>s. run counterWG
          [GetChunk (ChunkID 0 0 0) True, GetChunk (ChunkID 1 0 0) True, Drain,
           Generate (ChunkID 1 0 0), GetChunk (ChunkID 0 0 0) True, GetChunk (ChunkID 0 0 2) True,
           Generate (ChunkID 0 0 0), Commit, GetChunk (ChunkID 5 5 5) True]
          (LocalServer 0) = Some s \<and>
        chunkRequests s = {ChunkID 5 5 5, ChunkID 0 0 2} \<and>
        chunkRequestsInProgress s = {} \<and>
        dom (loadedChunks s) = {ChunkID 0 0 0, ChunkID 1 0 0} \<and>
        chunkRequests s \<inter> chunkRequestsInProgress s = {} \<and>
        chunkRequests s \<inter> dom (loadedChunks s) = {} \<and>
        chunkRequestsInProgress s \<inter> dom (loadedChunks s) = {}"
proof -
  obtain s where s: "run counterWG
          [GetChunk (ChunkID 0 0 0) True, GetChunk (ChunkID 1 0 0) True, Drain,
           Generate (ChunkID 1 0 0), GetChunk (ChunkID 0 0 0) True, GetChunk (ChunkID 0 0 2) True,
           Generate (ChunkID 0 0 0), Commit, GetChunk (ChunkID 5 5 5) True]
          (LocalServer 0) = Some s"
    by (simp add: model_defs)
  from s have "chunkRequests s = {ChunkID 5 5 5, ChunkID 0 0 2}"
    "chunkRequestsInProgress s = {}"
    "dom (loadedChunks s) = {ChunkID 0 0 0, ChunkID 1 0 0}"
    by (auto simp: model_defs split: if_splits)
  with s collections_disjoint [OF s] show ?thesis by blast
qed

text \<open>
  Claim C10. The loaded map only grows: for every reachable state and every operation
  (\<^verbatim>\<open>getChunk\<close> with either flag, and each move of the worker), every binding of
  \<^verbatim>\<open>loadedChunks\<close> before the operation is still there, unchanged, after it.
\<close>

theorem loaded_grows:
  assumes "run wg as (LocalServer g) = Some s" and "exec wg a s = Some s'"
  shows "\<forall>cid c. loadedChunks s cid = Some c \<longrightarrow> loadedChunks s' cid = Some c"
proof -
  from server_inv_LocalServer assms(1) have "server_inv s" by (rule server_inv_run)
  from this assms(2) have "loadedChunks s \<subseteq>\<^sub>m loadedChunks s'" by (rule exec_loaded_mono)
  then show ?thesis by (auto simp: map_le_def dom_def)
qed

text \<open>
  Claim C6. A key that is loaded in a reachable state stays loaded, bound to the same
  pointer, after any further sequence of operations; it is then neither pending nor in
  progress, and every lookup of it, before or after, with either flag, returns that same
  pointer.
\<close>

theorem loaded_stable:
  assumes "run wg as0 (LocalServer g) = Some s" and "loadedChunks s cid = Some c"
    and "run wg as s = Some s'"
  shows "loadedChunks s' cid = Some c \<and>
         cid \<notin> chunkRequests s' \<and> cid \<notin> chunkRequestsInProgress s' \<and>
         fst (getChunk cid request s) = c \<and> fst (getChunk cid request' s') = c"
proof -
  from server_inv_LocalServer assms(1) have inv: "server_inv s" by (rule server_inv_run)
  from inv assms(3) have inv': "server_inv s'" by (rule server_inv_run)
  from inv assms(3) have "loadedChunks s \<subseteq>\<^sub>m loadedChunks s'" by (rule run_loaded_mono)
  with assms(2) have l: "loadedChunks s' cid = Some c" by (auto simp: map_le_def dom_def)
  then have "loadedChunks s' cid \<noteq> None" by simp
  with inv' have "cid \<notin> chunkRequests s' \<and> cid \<notin> chunkRequestsInProgress s'"
    by (auto dest: server_inv_loaded)
  with l assms(2) show ?thesis by (simp add: getChunk_def)
qed

theorem loaded_grows_witness:
  "run counterWG
     [GetChunk (ChunkID 0 0 0) True, Drain, Generate (ChunkID 0 0 0), Commit,
      GetChunk (ChunkID 0 1 0) True, Drain, Generate (ChunkID 0 1 0)]
     (LocalServer 0) =
   Some \<lparr>chunkRequests = {}, chunkRequestsInProgress = {ChunkID 0 1 0},
         loadedChunks = [ChunkID 0 0 0 \<mapsto> Ptr 0], worldGen = 2, pc = Generating,
         res = [(ChunkID 0 1 0, Ptr 1)]\<rparr> \<and>
   exec counterWG Commit
     \<lparr>chunkRequests = {}, chunkRequestsInProgress = {ChunkID 0 1 0},
      loadedChunks = [ChunkID 0 0 0 \<mapsto> Ptr 0], worldGen = 2, pc = Generating,
      res = [(ChunkID 0 1 0, Ptr 1)]\<rparr> =
   Some \<lparr>chunkRequests = {}, chunkRequestsInProgress = {},
         loadedChunks = [ChunkID 0 0 0 \<mapsto> Ptr 0, ChunkID 0 1 0 \<mapsto> Ptr 1],
         worldGen = 2, pc = Waiting, res = []\<rparr> \<and>
   [ChunkID 0 0 0 \<mapsto> Ptr 0, ChunkID 0 1 0 \<mapsto> Ptr (1::nat)] (ChunkID 0 0 0) = Some (Ptr 0)"
proof -
  have s: "run counterWG
     [GetChunk (ChunkID 0 0 0) True, Drain, Generate (ChunkID 0 0 0), Commit,
      GetChunk (ChunkID 0 1 0) True, Drain, Generate (ChunkID 0 1 0)]
     (LocalServer 0) =
   Some \<lparr>chunkRequests = {}, chunkRequestsInProgress = {ChunkID 0 1 0},
         loadedChunks = [ChunkID 0 0 0 \<mapsto> Ptr 0], worldGen = 2, pc = Generating,
         res = [(ChunkID 0 1 0, Ptr 1)]\<rparr>"
    by (simp add: model_defs)
  have e: "exec counterWG Commit
     \<lparr>chunkRequests = {}, chunkRequestsInProgress = {ChunkID 0 1 0},
      loadedChunks = [ChunkID 0 0 0 \<mapsto> Ptr 0], worldGen = 2, pc = Generating,
      res = [(ChunkID 0 1 0, Ptr 1)]\<rparr> =
   Some \<lparr>chunkRequests = {}, chunkRequestsInProgress = {},
         loadedChunks = [ChunkID 0 0 0 \<mapsto> Ptr 0, ChunkID 0 1 0 \<mapsto> Ptr 1],
         worldGen = 2, pc = Waiting, res = []\<rparr>"
    by (simp add: model_defs)
  from loaded_grows [OF s e]
  have "[ChunkID 0 0 0 \<mapsto> Ptr 0, ChunkID 0 1 0 \<mapsto> Ptr (1::nat)] (ChunkID 0 0 0) = Some (Ptr 0)"
    by simp
  with s e show ?thesis by (intro conjI)
qed

theorem loaded_stable_witness:
  "run counterWG [GetChunk (ChunkID 0 0 0) True, Drain, Generate (ChunkID 0 0 0), Commit]
     (LocalServer 0) =
   Some \<lparr>chunkRequests = {}, chunkRequestsInProgress = {},
         loadedChunks = [ChunkID 0 0 0 \<mapsto> Ptr 0], worldGen = 1, pc = Waiting, res = []\<rparr> \<and>
   run counterWG
     [GetChunk (ChunkID 0 0 0) True, GetChunk (ChunkID 0 1 0) True, Drain,
      GetChunk (ChunkID 0 0 0) True, Generate (ChunkID 0 1 0), Commit,
      GetChunk (ChunkID 0 0 0) False]
     \<lparr>chunkRequests = {}, chunkRequestsInProgress = {},
      loadedChunks = [ChunkID 0 0 0 \<mapsto> Ptr 0], worldGen = 1, pc = Waiting, res = []\<rparr> =
   Some \<lparr>chunkRequests = {}, chunkRequestsInProgress = {},
         loadedChunks = [ChunkID 0 0 0 \<mapsto> Ptr 0, ChunkID 0 1 0 \<mapsto> Ptr 1],
         worldGen = 2, pc = Waiting, res = []\<rparr> \<and>
   fst (getChunk (ChunkID 0 0 0) True
          \<lparr>chunkRequests = {}, chunkRequestsInProgress = {},
           loadedChunks = [ChunkID 0 0 0 \<mapsto> Ptr 0], worldGen = 1::nat, pc = Waiting,
           res = []\<rparr>) = Ptr (0::nat) \<and>
   fst (getChunk (ChunkID 0 0 0) False
          \<lparr>chunkRequests = {}, chunkRequestsInProgress = {},
           loadedChunks = [ChunkID 0 0 0 \<mapsto> Ptr 0, ChunkID 0 1 0 \<mapsto> Ptr 1],
           worldGen = 2::nat, pc = Waiting, res = []\<rparr>) = Ptr (0::nat)"
proof -
  have s: "run counterWG [GetChunk (ChunkID 0 0 0) True, Drain, Generate (ChunkID 0 0 0), Commit]
     (LocalServer 0) =
   Some \<lparr>chunkRequests = {}, chunkRequestsInProgress = {},
         loadedChunks = [ChunkID 0 0 0 \<mapsto> Ptr 0], worldGen = 1, pc = Waiting, res = []\<rparr>"
    by (simp add: model_defs)
  have r: "run counterWG
     [GetChunk (ChunkID 0 0 0) True, GetChunk (ChunkID 0 1 0) True, Drain,
      GetChunk (ChunkID 0 0 0) True, Generate (ChunkID 0 1 0), Commit,
      GetChunk (ChunkID 0 0 0) False]
     \<lparr>chunkRequests = {}, chunkRequestsInProgress = {},
      loadedChunks = [ChunkID 0 0 0 \<mapsto> Ptr 0], worldGen = 1, pc = Waiting, res = []\<rparr> =
   Some \<lparr>chunkRequests = {}, chunkRequestsInProgress = {},
         loadedChunks = [ChunkID 0 0 0 \<mapsto> Ptr 0, ChunkID 0 1 0 \<mapsto> Ptr 1],
         worldGen = 2, pc = Waiting, res = []\<rparr>"
    by (simp add: model_defs)
  have l: "loadedChunks
     \<lparr>chunkRequests = {}, chunkRequestsInProgress = {},
      loadedChunks = [ChunkID 0 0 0 \<mapsto> Ptr 0], worldGen = 1::nat, pc = Waiting, res = []\<rparr>
     (ChunkID 0 0 0) = Some (Ptr (0::nat))"
    by simp
  from loaded_stable [OF s l r, of True False] s r show ?thesis by (intro conjI) simp_all
qed

section \<open>The worker cycle\<close>

lemma commit_fields [simp]:
  "chunkRequests (commit s) = chunkRequests s"
  "chunkRequestsInProgress (commit s) = {}"
  "worldGen (commit s) = worldGen s"
  "pc (commit s) = Waiting"
  "res (commit s) = []"
  by (simp_all add: commit_def)

lemma generate_fields [simp]:
  "chunkRequests (generate wg cid s) = chunkRequests s"
  "chunkRequestsInProgress (generate wg cid s) = chunkRequestsInProgress s"
  "loadedChunks (generate wg cid s) = loadedChunks s"
  "pc (generate wg cid s) = pc s"
  "res (generate wg cid s) = AList.update cid (fst (wg (worldGen s) cid)) (res s)"
  "worldGen (generate wg cid s) = snd (wg (worldGen s) cid)"
  by (simp_all add: generate_def split: prod.splits)

lemma drain_fields [simp]:
  "chunkRequests (drain s) = {}"
  "chunkRequestsInProgress (drain s) = chunkRequests s"
  "loadedChunks (drain s) = loadedChunks s"
  "pc (drain s) = Generating"
  "res (drain s) = []"
  "worldGen (drain s) = worldGen s"
  by (simp_all add: drain_def)

lemma getChunk_fields [simp]:
  "chunkRequestsInProgress (snd (getChunk cid request s)) = chunkRequestsInProgress s"
  "loadedChunks (snd (getChunk cid request s)) = loadedChunks s"
  "pc (snd (getChunk cid request s)) = pc s"
  "res (snd (getChunk cid request s)) = res s"
  "worldGen (snd (getChunk cid request s)) = worldGen s"
  by (simp_all add: getChunk_def split: option.splits)

lemma getChunk_requests:
  "chunkRequests (snd (getChunk cid request s)) =
     (if loadedChunks s cid = None \<and> request \<and> cid \<notin> chunkRequestsInProgress s
      then insert cid (chunkRequests s) else chunkRequests s)"
  by (auto simp: getChunk_def split: option.splits)

lemma commit_stores:
  assumes "distinct (map fst (res s))" and "(cid, c) \<in> set (res s)"
  shows "loadedChunks (commit s) cid = Some c"
proof -
  from assms(1) have "distinct (map fst (rev (res s)))"
    by (simp add: rev_map [symmetric])
  moreover from assms(2) have "(cid, c) \<in> set (rev (res s))" by simp
  ultimately have "map_of (rev (res s)) cid = Some c" by (rule map_of_is_SomeI)
  then show ?thesis by (simp add: commit_loaded)
qed

lemma commit_keeps:
  assumes "cid \<notin> fst ` set (res s)"
  shows "loadedChunks (commit s) cid = loadedChunks s cid"
proof -
  from assms have "map_of (rev (res s)) cid = None"
    by (simp add: map_of_eq_None_iff)
  then show ?thesis by (simp add: commit_loaded map_add_def)
qed

subsection \<open>Between the two critical sections\<close>

lemma generating_step:
  assumes "pc u = Generating" and "exec wg a u = Some t" and "a \<noteq> Commit"
  shows "pc t = Generating"
    and "chunkRequestsInProgress t = chunkRequestsInProgress u"
    and "loadedChunks t = loadedChunks u"
    and "fst ` set (res t) = fst ` set (res u) \<union> {k. a = Generate k}"
    and "a = Generate k \<Longrightarrow> k \<in> chunkRequestsInProgress u \<and> k \<notin> fst ` set (res u)"
    and "distinct (map fst (res u)) \<Longrightarrow> distinct (map fst (res t))"
    and "map_of (res u) k = Some c \<Longrightarrow> map_of (res t) k = Some c"
    and "chunkRequests t \<subseteq> chunkRequests u \<union> ({k. a = GetChunk k True} - chunkRequestsInProgress u)"
    and "chunkRequests u \<subseteq> chunkRequests t"
proof -
  consider (get) cid r where "a = GetChunk cid r" "t = snd (getChunk cid r u)"
    | (gen) cid where "a = Generate cid" "t = generate wg cid u"
        "cid \<in> chunkRequestsInProgress u" "cid \<notin> fst ` set (res u)"
    using assms by (cases a) (auto split: if_splits)
  note cs = this
  show "pc t = Generating" using assms(1) by (cases rule: cs) simp_all
  show "chunkRequestsInProgress t = chunkRequestsInProgress u" by (cases rule: cs) simp_all
  show "loadedChunks t = loadedChunks u" by (cases rule: cs) simp_all
  show "fst ` set (res t) = fst ` set (res u) \<union> {k. a = Generate k}"
    by (cases rule: cs) (simp_all add: dom_update)
  show "a = Generate k \<Longrightarrow> k \<in> chunkRequestsInProgress u \<and> k \<notin> fst ` set (res u)"
    by (cases rule: cs) simp_all
  show "distinct (map fst (res u)) \<Longrightarrow> distinct (map fst (res t))"
    by (cases rule: cs) (simp_all add: distinct_update)
  show "map_of (res u) k = Some c \<Longrightarrow> map_of (res t) k = Some c"
  proof (cases rule: cs)
    case get
    assume "map_of (res u) k = Some c"
    with get show ?thesis by simp
  next
    case gen
    assume m: "map_of (res u) k = Some c"
    then have "k \<in> fst ` set (res u)"
      by (metis map_of_eq_None_iff option.distinct(1))
    with gen have "k \<noteq> cid" by auto
    with m gen show ?thesis by (simp add: update_conv')
  qed
  show "chunkRequests t \<subseteq> chunkRequests u \<union> ({k. a = GetChunk k True} - chunkRequestsInProgress u)"
    by (cases rule: cs) (auto simp: getChunk_requests split: if_splits)
  show "chunkRequests u \<subseteq> chunkRequests t"
    by (cases rule: cs) (auto simp: getChunk_requests split: if_splits)
qed

lemma generating_run:
  assumes "pc u = Generating" and "run wg as u = Some t" and "Commit \<notin> set as"
  shows "pc t = Generating \<and>
         chunkRequestsInProgress t = chunkRequestsInProgress u \<and>
         loadedChunks t = loadedChunks u \<and>
         fst ` set (res t) = fst ` set (res u) \<union> {k. Generate k \<in> set as} \<and>
         {k. Generate k \<in> set as} \<subseteq> chunkRequestsInProgress u - fst ` set (res u) \<and>
         (distinct (map fst (res u)) \<longrightarrow> distinct (map fst (res t))) \<and>
         (\<forall>k c. map_of (res u) k = Some c \<longrightarrow> map_of (res t) k = Some c) \<and>
         chunkRequests t \<subseteq>
           chunkRequests u \<union> ({k. GetChunk k True \<in> set as} - chunkRequestsInProgress u) \<and>
         chunkRequests u \<subseteq> chunkRequests t"
  using assms
proof (induction as arbitrary: u)
  case Nil
  then show ?case by simp
next
  case (Cons a as)
  then obtain v where v: "exec wg a u = Some v" "run wg as v = Some t"
    by (auto split: option.splits)
  from Cons.prems have a: "a \<noteq> Commit" and as: "Commit \<notin> set as" by auto
  note st = generating_step [OF Cons.prems(1) v(1) a]
  from Cons.IH [OF st(1) v(2) as]
  have i1: "pc t = Generating"
    and i2: "chunkRequestsInProgress t = chunkRequestsInProgress v"
    and i3: "loadedChunks t = loadedChunks v"
    and i4: "fst ` set (res t) = fst ` set (res v) \<union> {k. Generate k \<in> set as}"
    and i5: "{k. Generate k \<in> set as} \<subseteq> chunkRequestsInProgress v - fst ` set (res v)"
    and i6: "distinct (map fst (res v)) \<longrightarrow> distinct (map fst (res t))"
    and i7: "\<forall>k c. map_of (res v) k = Some c \<longrightarrow> map_of (res t) k = Some c"
    and i8: "chunkRequests t \<subseteq>
           chunkRequests v \<union> ({k. GetChunk k True \<in> set as} - chunkRequestsInProgress v)"
    and i9: "chunkRequests v \<subseteq> chunkRequests t"
    by blast+
  have g: "{k. Generate k \<in> set (a # as)} = {k. a = Generate k} \<union> {k. Generate k \<in> set as}"
    by auto
  have r: "{k. GetChunk k True \<in> set (a # as)} =
             {k. a = GetChunk k True} \<union> {k. GetChunk k True \<in> set as}"
    by auto
  show ?case
  proof (intro conjI)
    show "pc t = Generating" by (rule i1)
    show "chunkRequestsInProgress t = chunkRequestsInProgress u" using i2 st(2) by simp
    show "loadedChunks t = loadedChunks u" using i3 st(3) by simp
    show "fst ` set (res t) = fst ` set (res u) \<union> {k. Generate k \<in> set (a # as)}"
      unfolding i4 st(4) g by (simp add: Un_assoc)
    show "{k. Generate k \<in> set (a # as)} \<subseteq> chunkRequestsInProgress u - fst ` set (res u)"
      unfolding g using i5 st(5) unfolding st(2) st(4) by blast
    show "distinct (map fst (res u)) \<longrightarrow> distinct (map fst (res t))"
      using i6 st(6) by blast
    show "\<forall>k c. map_of (res u) k = Some c \<longrightarrow> map_of (res t) k = Some c"
      using i7 st(7) by blast
    show "chunkRequests t \<subseteq>
           chunkRequests u \<union> ({k. GetChunk k True \<in> set (a # as)} - chunkRequestsInProgress u)"
      unfolding r using i8 st(8) unfolding st(2) by blast
    show "chunkRequests u \<subseteq> chunkRequests t" using i9 st(9) by blast
  qed
qed

subsection \<open>The worker can always go on\<close>

lemma generate_all:
  assumes "pc s = Generating" and "set ks \<subseteq> chunkRequestsInProgress s"
    and "set ks \<inter> fst ` set (res s) = {}" and "distinct ks"
  shows "\<exists>t. run wg (map Generate ks) s = Some t"
  using assms
proof (induction ks arbitrary: s)
  case Nil
  then show ?case by simp
next
  case (Cons k ks)
  let ?v = "generate wg k s"
  from Cons.prems(2) have k1: "k \<in> chunkRequestsInProgress s" by simp
  from Cons.prems(3) have k2: "k \<notin> fst ` set (res s)" by simp
  from Cons.prems(4) have k3: "k \<notin> set ks" by simp
  from Cons.prems(1) k1 k2 have e: "exec wg (Generate k) s = Some ?v" by simp
  have "\<exists>t. run wg (map Generate ks) ?v = Some t"
  proof (rule Cons.IH)
    show "pc ?v = Generating" using Cons.prems(1) by simp
    show "set ks \<subseteq> chunkRequestsInProgress ?v" using Cons.prems(2) by simp
    have "fst ` set (res ?v) = insert k (fst ` set (res s))" by (simp add: dom_update)
    moreover from Cons.prems(3) have "set ks \<inter> fst ` set (res s) = {}" by simp
    ultimately show "set ks \<inter> fst ` set (res ?v) = {}" using k3 by simp
    show "distinct ks" using Cons.prems(4) by simp
  qed
  then obtain t where "run wg (map Generate ks) ?v = Some t" ..
  with e have "run wg (map Generate (k # ks)) s = Some t" by simp
  then show ?case ..
qed

lemma finish_cycle:
  assumes "server_inv s" and "pc s = Generating"
  shows "\<exists>bs t. run wg bs s = Some t \<and> count_list bs Commit = 1 \<and> pc t = Waiting \<and>
           chunkRequests t = chunkRequests s"
proof -
  from assms(1) have fin: "finite (chunkRequestsInProgress s - fst ` set (res s))"
    unfolding server_inv_def by simp
  from finite_distinct_list [OF fin]
  obtain ks where ks: "set ks = chunkRequestsInProgress s - fst ` set (res s)" "distinct ks"
    by (elim exE conjE)
  have "\<exists>t. run wg (map Generate ks) s = Some t"
  proof (rule generate_all)
    show "pc s = Generating" by (rule assms(2))
    show "set ks \<subseteq> chunkRequestsInProgress s" using ks(1) by blast
    show "set ks \<inter> fst ` set (res s) = {}" using ks(1) by blast
    show "distinct ks" by (rule ks(2))
  qed
  then obtain t where t: "run wg (map Generate ks) s = Some t" ..
  have nc: "Commit \<notin> set (map Generate ks)" by auto
  have gk: "{k. Generate k \<in> set (map Generate ks)} = set ks" by auto
  have rk: "{k. GetChunk k True \<in> set (map Generate ks)} = {}" by auto
  from generating_run [OF assms(2) t nc]
  have g1: "pc t = Generating"
    and g2: "chunkRequestsInProgress t = chunkRequestsInProgress s"
    and g4: "fst ` set (res t) = fst ` set (res s) \<union> {k. Generate k \<in> set (map Generate ks)}"
    and g8: "chunkRequests t \<subseteq> chunkRequests s \<union>
               ({k. GetChunk k True \<in> set (map Generate ks)} - chunkRequestsInProgress s)"
    and g9: "chunkRequests s \<subseteq> chunkRequests t"
    by blast+
  have "A' \<subseteq> K'" if "A' = A" "K' = K \<union> S" "S = A - K" for A A' K K' S :: "'a set"
    using that by blast
  from this [OF g2 g4 [unfolded gk] ks(1)]
  have "chunkRequestsInProgress t \<subseteq> fst ` set (res t)" .
  with g1 have "exec wg Commit t = Some (commit t)" by simp
  with t have r: "run wg (map Generate ks @ [Commit]) s = Some (commit t)"
    by (simp add: run_snoc)
  from nc have "count_list (map Generate ks) Commit = 0"
    by (simp only: count_list_0_iff not_False_eq_True)
  then have c: "count_list (map Generate ks @ [Commit]) Commit = 1"
    by (simp add: count_list_append)
  from g8 g9 have q: "chunkRequests (commit t) = chunkRequests s"
    unfolding rk by simp
  show ?thesis
  proof (intro exI conjI)
    show "run wg (map Generate ks @ [Commit]) s = Some (commit t)" by (rule r)
    show "count_list (map Generate ks @ [Commit]) Commit = 1" by (rule c)
    show "pc (commit t) = Waiting" by simp
    show "chunkRequests (commit t) = chunkRequests s" by (rule q)
  qed
qed

lemma whole_cycle:
  assumes "server_inv s" and "pc s = Waiting" and "chunkRequests s \<noteq> {}"
  shows "\<exists>bs t. run wg bs s = Some t \<and> count_list bs Commit = 1 \<and> pc t = Waiting"
proof -
  from assms have e: "exec wg Drain s = Some (drain s)" by simp
  with assms(1) have "server_inv (drain s)" by (rule server_inv_exec)
  then obtain bs t where "run wg bs (drain s) = Some t" "count_list bs Commit = 1" "pc t = Waiting"
    using finish_cycle [of "drain s" wg] by auto
  with e show ?thesis
    by (intro exI[of _ "Drain # bs"] exI[of _ t]) simp
qed

lemma two_commits:
  assumes "server_inv s" and "pc s = Generating" and "chunkRequests s \<noteq> {}"
  shows "\<exists>bs t. run wg bs s = Some t \<and> count_list bs Commit = 2"
proof -
  from finish_cycle [OF assms(1,2), of wg]
  obtain bs t where 1: "run wg bs s = Some t" "count_list bs Commit = 1" "pc t = Waiting"
    "chunkRequests t = chunkRequests s" by blast
  from assms(1) 1(1) have "server_inv t" by (rule server_inv_run)
  with 1 assms(3) whole_cycle [of t wg]
  obtain cs v where 2: "run wg cs t = Some v" "count_list cs Commit = 1" by auto
  from 1 2 show ?thesis
    by (intro exI[of _ "bs @ cs"] exI[of _ v]) (simp add: run_append)
qed

lemma can_load:
  assumes "server_inv s" and "requested s x"
  shows "\<exists>bs t. run wg bs s = Some t \<and> loadedChunks t x \<noteq> None"
proof -
  have *: "\<exists>bs t. run wg bs s = Some t \<and> commits_left s x \<le> count_list bs Commit"
  proof (cases "loadedChunks s x = None")
    case False
    then have "run wg [] s = Some s \<and> commits_left s x \<le> count_list [] Commit"
      by (simp add: commits_left_def)
    then show ?thesis by blast
  next
    case True
    show ?thesis
    proof (cases "pc s")
      case Waiting
      with assms True server_inv_Waiting [of s] have "chunkRequests s \<noteq> {}"
        by (auto simp: requested_def)
      from whole_cycle [OF assms(1) Waiting this, of wg]
      obtain bs t where "run wg bs s = Some t" "count_list bs Commit = 1" by blast
      moreover from Waiting have "commits_left s x \<le> 1" by (simp add: commits_left_def)
      ultimately show ?thesis by auto
    next
      case Generating
      show ?thesis
      proof (cases "x \<in> chunkRequestsInProgress s")
        case True
        from finish_cycle [OF assms(1) Generating, of wg]
        obtain bs t where "run wg bs s = Some t" "count_list bs Commit = 1" by blast
        moreover from True have "commits_left s x \<le> 1" by (simp add: commits_left_def)
        ultimately show ?thesis by auto
      next
        case False
        with assms \<open>loadedChunks s x = None\<close> have "chunkRequests s \<noteq> {}"
          by (auto simp: requested_def)
        from two_commits [OF assms(1) Generating this, of wg]
        obtain bs t where "run wg bs s = Some t" "count_list bs Commit = 2" by blast
        moreover have "commits_left s x \<le> 2" by (simp add: commits_left_def)
        ultimately show ?thesis by auto
      qed
    qed
  qed
  then obtain bs t where bs: "run wg bs s = Some t" "commits_left s x \<le> count_list bs Commit"
    by blast
  from commits_left_run [OF assms(1) bs(1) assms(2)] bs(2) have "commits_left t x = 0" by simp
  then have "loadedChunks t x \<noteq> None"
    by (simp add: commits_left_def split: if_splits)
  with bs(1) show ?thesis by blast
qed

lemma generated_LocalServer: "\<not> generated (LocalServer g) x"
  by (simp add: generated_def LocalServer_def)

lemma generated_count:
  assumes "run wg as (LocalServer g) = Some s"
  shows "count_list as (Generate x) = of_bool (generated s x)"
  using generated_run [OF server_inv_LocalServer assms, of x] generated_LocalServer [of g x]
  by simp

lemma requested_run:
  "server_inv s \<Longrightarrow> run wg as s = Some s' \<Longrightarrow> requested s x \<Longrightarrow> requested s' x"
proof (induction as arbitrary: s)
  case Nil
  then show ?case by simp
next
  case (Cons a as)
  then obtain t where t: "exec wg a s = Some t" "run wg as t = Some s'"
    by (auto split: option.splits)
  from Cons.prems(1) t(1) have "server_inv t" by (rule server_inv_exec)
  moreover from Cons.prems(1) t(1) Cons.prems(3) have "requested t x" by (rule requested_exec)
  ultimately show ?case using t(2) by (intro Cons.IH)
qed

lemma requested_getChunk: "requested (snd (getChunk x True s)) x"
  by (auto simp: requested_def getChunk_requests)

lemma commits_left_le: "commits_left s x \<le> 2"
  by (simp add: commits_left_def)

lemma served_after_two_commits:
  assumes "server_inv s" and "requested s x" and "run wg as s = Some t"
    and "2 \<le> count_list as Commit"
  shows "loadedChunks t x \<noteq> None"
proof -
  from commits_left_run [OF assms(1,3,2)] commits_left_le [of s x] assms(4)
  have "commits_left t x = 0" by simp
  then show ?thesis by (simp add: commits_left_def split: if_splits)
qed

section \<open>Requests are served once\<close>

text \<open>
  Claim C1. Take any interleaving of consumer calls and worker moves from the constructor,
  and any key \<open>x\<close>. However often \<^verbatim>\<open>getChunk(x, true)\<close> was called, \<open>x\<close> is never
  in the pending set and in the in-progress set at once (each being a set, \<open>x\<close> has at
  most one entry across the two). The generator is called for \<open>x\<close> at most once in the
  whole run. It is called exactly once in every run in which the worker has passed two
  commits after a request for \<open>x\<close>; and after a request for \<open>x\<close> the run can always be
  continued to one in which the generator has been called for \<open>x\<close> exactly once.
\<close>

theorem request_dedup:
  assumes "run wg as (LocalServer g) = Some s"
  shows "\<not> (x \<in> chunkRequests s \<and> x \<in> chunkRequestsInProgress s) \<and>
         count_list as (Generate x) \<le> 1 \<and>
         (\<forall>as1 as2. as = as1 @ GetChunk x True # as2 \<and> 2 \<le> count_list as2 Commit
            \<longrightarrow> count_list as (Generate x) = 1) \<and>
         (GetChunk x True \<in> set as \<longrightarrow>
            (\<exists>bs t. run wg (as @ bs) (LocalServer g) = Some t \<and>
                    count_list (as @ bs) (Generate x) = 1))"
proof (intro conjI allI impI)
  from server_inv_LocalServer assms have inv: "server_inv s" by (rule server_inv_run)
  then show "\<not> (x \<in> chunkRequests s \<and> x \<in> chunkRequestsInProgress s)"
    unfolding server_inv_def by blast
  show "count_list as (Generate x) \<le> 1"
    unfolding generated_count [OF assms] by simp
  show "count_list as (Generate x) = 1"
    if h: "as = as1 @ GetChunk x True # as2 \<and> 2 \<le> count_list as2 Commit" for as1 as2
  proof -
    from h have as: "as = (as1 @ [GetChunk x True]) @ as2" by simp
    from assms obtain u where u: "run wg (as1 @ [GetChunk x True]) (LocalServer g) = Some u"
      "run wg as2 u = Some s"
      unfolding as run_append [of wg "as1 @ [GetChunk x True]"] by (auto split: option.splits)
    from server_inv_LocalServer u(1) have iu: "server_inv u" by (rule server_inv_run)
    from u(1) have "requested u x"
      by (auto simp: run_snoc requested_getChunk split: option.splits)
    from served_after_two_commits [OF iu this u(2)] h have "generated s x"
      by (simp add: generated_def)
    then show ?thesis unfolding generated_count [OF assms] by simp
  qed
  show "\<exists>bs t. run wg (as @ bs) (LocalServer g) = Some t \<and> count_list (as @ bs) (Generate x) = 1"
    if h: "GetChunk x True \<in> set as"
  proof -
    from h obtain as1 as2 where as: "as = (as1 @ [GetChunk x True]) @ as2"
      by (auto dest: split_list)
    from assms obtain u where u: "run wg (as1 @ [GetChunk x True]) (LocalServer g) = Some u"
      "run wg as2 u = Some s"
      unfolding as run_append [of wg "as1 @ [GetChunk x True]"] by (auto split: option.splits)
    from server_inv_LocalServer u(1) have iu: "server_inv u" by (rule server_inv_run)
    from u(1) have "requested u x"
      by (auto simp: run_snoc requested_getChunk split: option.splits)
    with iu u(2) have "requested s x" by (rule requested_run)
    from can_load [OF inv this, of wg] obtain bs t where
      bs: "run wg bs s = Some t" "loadedChunks t x \<noteq> None" by blast
    from assms bs(1) have r: "run wg (as @ bs) (LocalServer g) = Some t"
      by (simp add: run_append)
    from bs(2) have "generated t x" by (simp add: generated_def)
    then have "count_list (as @ bs) (Generate x) = 1"
      unfolding generated_count [OF r] by simp
    with r show ?thesis by blast
  qed
qed

lemma generating_count:
  assumes "pc u = Generating" and "run wg as u = Some t" and "Commit \<notin> set as"
  shows "count_list as (Generate k) =
           (if k \<in> fst ` set (res t) \<and> k \<notin> fst ` set (res u) then 1 else 0)"
  using assms
proof (induction as arbitrary: u)
  case Nil
  then show ?case by simp
next
  case (Cons a as)
  then obtain v where v: "exec wg a u = Some v" "run wg as v = Some t"
    by (auto split: option.splits)
  from Cons.prems have a: "a \<noteq> Commit" and as: "Commit \<notin> set as" by auto
  note st = generating_step [OF Cons.prems(1) v(1) a]
  note ih = Cons.IH [OF st(1) v(2) as]
  from generating_run [OF st(1) v(2) as]
  have sub: "fst ` set (res t) = fst ` set (res v) \<union> {k. Generate k \<in> set as}" by blast
  show ?case
  proof (cases "a = Generate k")
    case True
    from st(5) [OF True] have "k \<notin> fst ` set (res u)" by simp
    moreover from True st(4) have kv: "k \<in> fst ` set (res v)" by simp
    moreover from kv sub have "k \<in> fst ` set (res t)" by simp
    ultimately show ?thesis using True ih by simp
  next
    case False
    with st(4) have "k \<in> fst ` set (res v) \<longleftrightarrow> k \<in> fst ` set (res u)" by simp
    with False ih show ?thesis by simp
  qed
qed

lemma generating_requests_step:
  assumes "pc u = Generating" and "exec wg a u = Some v" and "a \<noteq> Commit"
  shows "chunkRequests v =
           chunkRequests u \<union>
           {k. a = GetChunk k True \<and> k \<notin> chunkRequestsInProgress u \<and> loadedChunks u k = None}"
proof (cases a)
  case (GetChunk cid r)
  with assms(2) have "v = snd (getChunk cid r u)" by simp
  with GetChunk show ?thesis by (auto simp: getChunk_requests)
next
  case Drain
  with assms(1,2) show ?thesis by simp
next
  case (Generate cid)
  with assms(2) have "v = generate wg cid u" by (simp split: if_splits)
  with Generate show ?thesis by simp
next
  case Commit
  with assms(3) show ?thesis by simp
qed

lemma generating_requests:
  assumes "pc u = Generating" and "run wg as u = Some t" and "Commit \<notin> set as"
  shows "chunkRequests t =
           chunkRequests u \<union>
           {k. GetChunk k True \<in> set as \<and> k \<notin> chunkRequestsInProgress u \<and>
               loadedChunks u k = None}"
  using assms
proof (induction as arbitrary: u)
  case Nil
  then show ?case by simp
next
  case (Cons a as)
  then obtain v where v: "exec wg a u = Some v" "run wg as v = Some t"
    by (auto split: option.splits)
  from Cons.prems have a: "a \<noteq> Commit" and as: "Commit \<notin> set as" by auto
  note st = generating_step [OF Cons.prems(1) v(1) a]
  note rq = generating_requests_step [OF Cons.prems(1) v(1) a]
  note ih = Cons.IH [OF st(1) v(2) as, unfolded st(2) st(3)]
  have "{k. GetChunk k True \<in> set (a # as) \<and> k \<notin> chunkRequestsInProgress u \<and>
            loadedChunks u k = None} =
        {k. a = GetChunk k True \<and> k \<notin> chunkRequestsInProgress u \<and> loadedChunks u k = None} \<union>
        {k. GetChunk k True \<in> set as \<and> k \<notin> chunkRequestsInProgress u \<and>
            loadedChunks u k = None}"
    by auto
  then show ?case unfolding ih rq by (simp add: Un_assoc)
qed

lemma generate_rest:
  assumes "pc t = Generating" and "finite (chunkRequestsInProgress t)"
  shows "\<exists>ks t'. run wg (map Generate ks) t = Some t' \<and> exec wg Commit t' \<noteq> None"
proof -
  from assms(2) have fin: "finite (chunkRequestsInProgress t - fst ` set (res t))" by simp
  from finite_distinct_list [OF fin]
  obtain ks where ks: "set ks = chunkRequestsInProgress t - fst ` set (res t)" "distinct ks"
    by (elim exE conjE)
  have "\<exists>t'. run wg (map Generate ks) t = Some t'"
  proof (rule generate_all)
    show "pc t = Generating" by (rule assms(1))
    show "set ks \<subseteq> chunkRequestsInProgress t" using ks(1) by blast
    show "set ks \<inter> fst ` set (res t) = {}" using ks(1) by blast
    show "distinct ks" by (rule ks(2))
  qed
  then obtain t' where t': "run wg (map Generate ks) t = Some t'" ..
  have nc: "Commit \<notin> set (map Generate ks)" by auto
  have gk: "{k. Generate k \<in> set (map Generate ks)} = set ks" by auto
  from generating_run [OF assms(1) t' nc]
  have g1: "pc t' = Generating"
    and g2: "chunkRequestsInProgress t' = chunkRequestsInProgress t"
    and g4: "fst ` set (res t') = fst ` set (res t) \<union> {k. Generate k \<in> set (map Generate ks)}"
    by blast+
  have "A' \<subseteq> K'" if "A' = A" "K' = K \<union> S" "S = A - K" for A A' K K' S :: "'a set"
    using that by blast
  from this [OF g2 g4 [unfolded gk] ks(1)]
  have "chunkRequestsInProgress t' \<subseteq> fst ` set (res t')" .
  with g1 have "exec wg Commit t' \<noteq> None" by simp
  with t' show ?thesis by blast
qed

text \<open>
  Claim C4. The drain is one transition. After it the in-progress set is the pending set
  as it was before, the pending set is empty and the loaded map is unchanged. From then
  until the commit, whatever the consumers do:
  \<^item> the in-progress set stays that snapshot and the loaded map stays as it is;
  \<^item> the generator is called for keys of the snapshot only, and at most once for each
    (exactly for the keys that \<^verbatim>\<open>res\<close> holds);
  \<^item> the pending set is exactly the set of keys requested with
    \<^verbatim>\<open>getChunk(id, true)\<close> since the drain that are neither in the snapshot nor
    loaded: it started empty, no such request is lost, and no key of the snapshot
    enters it;
  \<^item> the commit is enabled exactly when the generator has been called for every key of
    the snapshot, and then it has been called exactly once for each key of the snapshot
    and for no other key;
  \<^item> when the snapshot is finite, the worker can go on generating until the commit is
    enabled.
\<close>

theorem drain_snapshot:
  assumes "exec wg Drain s = Some s'"
  shows "chunkRequestsInProgress s' = chunkRequests s \<and> chunkRequests s' = {} \<and>
         loadedChunks s' = loadedChunks s \<and>
         (\<forall>as t. run wg as s' = Some t \<and> Commit \<notin> set as \<longrightarrow>
            chunkRequestsInProgress t = chunkRequests s \<and>
            loadedChunks t = loadedChunks s \<and>
            {k. Generate k \<in> set as} \<subseteq> chunkRequests s \<and>
            chunkRequests t \<subseteq> {k. GetChunk k True \<in> set as} - chunkRequests s \<and>
            chunkRequests t =
              {k. GetChunk k True \<in> set as \<and> k \<notin> chunkRequests s \<and> loadedChunks s k = None} \<and>
            (\<forall>k. count_list as (Generate k) = (if k \<in> fst ` set (res t) then 1 else 0)) \<and>
            (exec wg Commit t \<noteq> None \<longleftrightarrow> {k. Generate k \<in> set as} = chunkRequests s) \<and>
            (exec wg Commit t \<noteq> None \<longrightarrow>
               (\<forall>k. count_list as (Generate k) = (if k \<in> chunkRequests s then 1 else 0))) \<and>
            (finite (chunkRequests s) \<longrightarrow>
               (\<exists>ks t'. run wg (as @ map Generate ks) s' = Some t' \<and>
                        exec wg Commit t' \<noteq> None)))"
proof -
  from assms have s': "s' = drain s"
    by (simp split: if_splits)
  have pc: "pc (drain s) = Generating" by simp
  have inner: "chunkRequestsInProgress t = chunkRequests s \<and>
        loadedChunks t = loadedChunks s \<and>
        {k. Generate k \<in> set as} \<subseteq> chunkRequests s \<and>
        chunkRequests t \<subseteq> {k. GetChunk k True \<in> set as} - chunkRequests s \<and>
        chunkRequests t =
          {k. GetChunk k True \<in> set as \<and> k \<notin> chunkRequests s \<and> loadedChunks s k = None} \<and>
        (\<forall>k. count_list as (Generate k) = (if k \<in> fst ` set (res t) then 1 else 0)) \<and>
        (exec wg Commit t \<noteq> None \<longleftrightarrow> {k. Generate k \<in> set as} = chunkRequests s) \<and>
        (exec wg Commit t \<noteq> None \<longrightarrow>
           (\<forall>k. count_list as (Generate k) = (if k \<in> chunkRequests s then 1 else 0))) \<and>
        (finite (chunkRequests s) \<longrightarrow>
           (\<exists>ks t'. run wg (as @ map Generate ks) (drain s) = Some t' \<and>
                    exec wg Commit t' \<noteq> None))"
    if h: "run wg as (drain s) = Some t \<and> Commit \<notin> set as" for as t
  proof -
    from h have r: "run wg as (drain s) = Some t" and nc: "Commit \<notin> set as" by simp_all
    from generating_run [OF pc r nc]
    have g1: "pc t = Generating"
      and g2: "chunkRequestsInProgress t = chunkRequestsInProgress (drain s)"
      and g3: "loadedChunks t = loadedChunks (drain s)"
      and g4: "fst ` set (res t) = fst ` set (res (drain s)) \<union> {k. Generate k \<in> set as}"
      and g5: "{k. Generate k \<in> set as} \<subseteq>
                 chunkRequestsInProgress (drain s) - fst ` set (res (drain s))"
      and g8: "chunkRequests t \<subseteq> chunkRequests (drain s) \<union>
                 ({k. GetChunk k True \<in> set as} - chunkRequestsInProgress (drain s))"
      by blast+
    from g4 have keys: "fst ` set (res t) = {k. Generate k \<in> set as}" by simp
    from g5 have sub: "{k. Generate k \<in> set as} \<subseteq> chunkRequests s" by simp
    from generating_requests [OF pc r nc]
    have pend: "chunkRequests t =
          {k. GetChunk k True \<in> set as \<and> k \<notin> chunkRequests s \<and> loadedChunks s k = None}"
      by simp
    have once: "count_list as (Generate k) = (if k \<in> fst ` set (res t) then 1 else 0)" for k
      using generating_count [OF pc r nc, of k] by simp
    have en: "exec wg Commit t \<noteq> None \<longleftrightarrow> {k. Generate k \<in> set as} = chunkRequests s"
    proof
      assume "exec wg Commit t \<noteq> None"
      with g2 have "chunkRequests s \<subseteq> fst ` set (res t)" by (simp split: if_splits)
      with sub keys show "{k. Generate k \<in> set as} = chunkRequests s" by simp
    next
      assume "{k. Generate k \<in> set as} = chunkRequests s"
      with keys g2 have "chunkRequestsInProgress t \<subseteq> fst ` set (res t)" by simp
      with g1 show "exec wg Commit t \<noteq> None" by simp
    qed
    have cnt: "count_list as (Generate k) = (if k \<in> chunkRequests s then 1 else 0)"
      if e: "exec wg Commit t \<noteq> None" for k
    proof -
      from e en keys have "fst ` set (res t) = chunkRequests s" by simp
      with once [of k] show ?thesis by simp
    qed
    have fin: "\<exists>ks t'. run wg (as @ map Generate ks) (drain s) = Some t' \<and>
                 exec wg Commit t' \<noteq> None"
      if f: "finite (chunkRequests s)"
    proof -
      from f g2 have "finite (chunkRequestsInProgress t)" by simp
      from generate_rest [OF g1 this, of wg]
      obtain ks t' where "run wg (map Generate ks) t = Some t'" "exec wg Commit t' \<noteq> None"
        by blast
      with r have "run wg (as @ map Generate ks) (drain s) = Some t' \<and>
                     exec wg Commit t' \<noteq> None"
        by (simp add: run_append)
      then show ?thesis by blast
    qed
    from g8 have ub: "chunkRequests t \<subseteq> {k. GetChunk k True \<in> set as} - chunkRequests s"
      by simp
    from g2 have a1: "chunkRequestsInProgress t = chunkRequests s" by simp
    from g3 have a2: "loadedChunks t = loadedChunks s" by simp
    show ?thesis
    proof (intro conjI allI impI)
      show "chunkRequestsInProgress t = chunkRequests s" by (rule a1)
      show "loadedChunks t = loadedChunks s" by (rule a2)
      show "{k. Generate k \<in> set as} \<subseteq> chunkRequests s" by (rule sub)
      show "chunkRequests t \<subseteq> {k. GetChunk k True \<in> set as} - chunkRequests s" by (rule ub)
      show "chunkRequests t =
          {k. GetChunk k True \<in> set as \<and> k \<notin> chunkRequests s \<and> loadedChunks s k = None}"
        by (rule pend)
      show "count_list as (Generate k) = (if k \<in> fst ` set (res t) then 1 else 0)" for k
        by (rule once)
      show "exec wg Commit t \<noteq> None \<longleftrightarrow> {k. Generate k \<in> set as} = chunkRequests s"
        by (rule en)
      show "count_list as (Generate k) = (if k \<in> chunkRequests s then 1 else 0)"
        if "exec wg Commit t \<noteq> None" for k
        using that by (rule cnt)
      show "\<exists>ks t'. run wg (as @ map Generate ks) (drain s) = Some t' \<and>
                 exec wg Commit t' \<noteq> None"
        if "finite (chunkRequests s)"
        using that by (rule fin)
    qed
  qed
  show ?thesis unfolding s'
  proof (intro conjI)
    show "chunkRequestsInProgress (drain s) = chunkRequests s" by simp
    show "chunkRequests (drain s) = {}" by simp
    show "loadedChunks (drain s) = loadedChunks s" by simp
  qed (intro allI impI, rule inner, assumption)
qed

text \<open>
  Claim C5, as the code has it. The results of a batch are committed together, in one
  critical section. Storing one pair \<open>(id, chunk)\<close> makes \<open>id\<close> map to \<open>chunk\<close> in the
  loaded map and leaves the in-progress set as it is. At the commit of a reachable state
  the keys of \<^verbatim>\<open>res\<close> are exactly the in-progress set; after it every pair of
  \<^verbatim>\<open>res\<close> is in the loaded map, the in-progress set is empty (it is cleared as a
  whole), the pending set is unchanged, and the loaded map is unchanged at every key
  outside the batch.
\<close>

theorem commit_batch:
  assumes "run wg as (LocalServer g) = Some s" and "exec wg Commit s = Some s'"
  shows "fst ` set (res s) = chunkRequestsInProgress s \<and>
         (\<forall>elem \<in> set (res s). loadedChunks s' (fst elem) = Some (snd elem)) \<and>
         chunkRequestsInProgress s' = {} \<and>
         chunkRequests s' = chunkRequests s \<and>
         (\<forall>cid. cid \<notin> chunkRequestsInProgress s \<longrightarrow> loadedChunks s' cid = loadedChunks s cid) \<and>
         (\<forall>elem. loadedChunks (store elem s) (fst elem) = Some (snd elem) \<and>
                 chunkRequestsInProgress (store elem s) = chunkRequestsInProgress s)"
proof -
  from server_inv_LocalServer assms(1) have inv: "server_inv s" by (rule server_inv_run)
  from assms(2) have s': "s' = commit s" and sub: "chunkRequestsInProgress s \<subseteq> fst ` set (res s)"
    by (simp_all split: if_splits)
  from inv have d: "distinct (map fst (res s))" and k: "fst ` set (res s) \<subseteq> chunkRequestsInProgress s"
    unfolding server_inv_def by simp_all
  from k sub have keys: "fst ` set (res s) = chunkRequestsInProgress s" by blast
  have "loadedChunks (commit s) (fst elem) = Some (snd elem)" if "elem \<in> set (res s)" for elem
    using commit_stores [OF d, of "fst elem" "snd elem"] that by simp
  moreover have "loadedChunks (commit s) cid = loadedChunks s cid"
    if "cid \<notin> chunkRequestsInProgress s" for cid
    using that keys by (intro commit_keeps) simp
  ultimately show ?thesis unfolding s' using keys by (simp add: store_def)
qed

lemma cycle_result:
  assumes "run wg (Drain # map Generate ks @ [Commit]) s1 = Some s2" and "cid \<in> chunkRequests s1"
  shows "\<exists>ks1 ks2 sa. ks = ks1 @ cid # ks2 \<and>
           run wg (Drain # map Generate ks1) s1 = Some sa \<and>
           loadedChunks s2 cid = Some (fst (wg (worldGen sa) cid))"
proof -
  let ?d = "drain s1"
  from assms(1) have e: "exec wg Drain s1 = Some ?d" and r: "run wg (map Generate ks @ [Commit]) ?d = Some s2"
    by (simp_all split: if_splits)
  from r obtain t where t: "run wg (map Generate ks) ?d = Some t" "exec wg Commit t = Some s2"
    by (auto simp: run_snoc split: option.splits)
  from t(2) have s2: "s2 = commit t" and sub: "chunkRequestsInProgress t \<subseteq> fst ` set (res t)"
    by (simp_all split: if_splits)
  have pc: "pc ?d = Generating" by simp
  have nc: "Commit \<notin> set (map Generate ks)" by auto
  have gk: "{k. Generate k \<in> set (map Generate ks)} = set ks" by auto
  from generating_run [OF pc t(1) nc]
  have g2: "chunkRequestsInProgress t = chunkRequestsInProgress ?d"
    and g4: "fst ` set (res t) = fst ` set (res ?d) \<union> {k. Generate k \<in> set (map Generate ks)}"
    and g6: "distinct (map fst (res ?d)) \<longrightarrow> distinct (map fst (res t))"
    by blast+
  from g6 have d: "distinct (map fst (res t))" by simp
  from g4 have "fst ` set (res t) = set ks" unfolding gk by simp
  with sub g2 assms(2) have "cid \<in> set ks" by auto
  then obtain ks1 ks2 where ks: "ks = ks1 @ cid # ks2" by (auto dest: split_list)
  from t(1) obtain sa sb where sa: "run wg (map Generate ks1) ?d = Some sa"
    and sb: "exec wg (Generate cid) sa = Some sb" and rest: "run wg (map Generate ks2) sb = Some t"
    unfolding ks by (auto simp: run_append split: option.splits)
  have nc1: "Commit \<notin> set (map Generate ks1)" and nc2: "Commit \<notin> set (map Generate ks2)" by auto
  from generating_run [OF pc sa nc1] have pa: "pc sa = Generating" by blast
  from sb have sb': "sb = generate wg cid sa" by (simp split: if_splits)
  from pa have pb: "pc sb = Generating" unfolding sb' by simp
  have "map_of (res sb) cid = Some (fst (wg (worldGen sa) cid))"
    unfolding sb' by (simp add: update_conv')
  moreover from generating_run [OF pb rest nc2]
  have "\<forall>k c. map_of (res sb) k = Some c \<longrightarrow> map_of (res t) k = Some c" by blast
  ultimately have "map_of (res t) cid = Some (fst (wg (worldGen sa) cid))" by blast
  then have "(cid, fst (wg (worldGen sa) cid)) \<in> set (res t)" by (rule map_of_SomeD)
  with d have "loadedChunks s2 cid = Some (fst (wg (worldGen sa) cid))"
    unfolding s2 by (rule commit_stores)
  moreover from e sa have "run wg (Drain # map Generate ks1) s1 = Some sa" by simp
  ultimately show ?thesis using ks by blast
qed

text \<open>
  Claim C7. Let the key \<open>{0,0,0}\<close> be in none of the three collections. After
  \<^verbatim>\<open>getChunk(id, true)\<close>, the call \<^verbatim>\<open>getChunk(id, false)\<close> returns \<^verbatim>\<open>NULL\<close>.
  After one cycle of the worker from that state (the drain, the generator calls in any
  order \<open>ks\<close>, the commit), \<^verbatim>\<open>getChunk(id, false)\<close> returns what the generator
  returned when the cycle called it for \<open>id\<close>: the cycle calls it for \<open>id\<close>, in
  the generator state \<open>worldGen sa\<close> that the earlier calls \<open>ks1\<close> of the cycle left.
\<close>

theorem request_then_cycle:
  assumes "ChunkID 0 0 0 \<notin> chunkRequests s" and "ChunkID 0 0 0 \<notin> chunkRequestsInProgress s"
    and "loadedChunks s (ChunkID 0 0 0) = None"
  shows "fst (getChunk (ChunkID 0 0 0) False (snd (getChunk (ChunkID 0 0 0) True s))) = NULL \<and>
         (\<forall>ks s2. run wg (Drain # map Generate ks @ [Commit]) (snd (getChunk (ChunkID 0 0 0) True s))
                     = Some s2 \<longrightarrow>
            (\<exists>ks1 ks2 sa. ks = ks1 @ ChunkID 0 0 0 # ks2 \<and>
               run wg (Drain # map Generate ks1) (snd (getChunk (ChunkID 0 0 0) True s)) = Some sa \<and>
               fst (getChunk (ChunkID 0 0 0) False s2) = fst (wg (worldGen sa) (ChunkID 0 0 0))))"
proof (intro conjI allI impI)
  let ?c = "ChunkID 0 0 0"
  let ?s1 = "snd (getChunk ?c True s)"
  from assms(3) show "fst (getChunk ?c False ?s1) = NULL"
    by (simp add: getChunk_def)
  from assms have p: "?c \<in> chunkRequests ?s1" by (simp add: getChunk_requests)
  fix ks s2
  assume "run wg (Drain # map Generate ks @ [Commit]) ?s1 = Some s2"
  from cycle_result [OF this p]
  obtain ks1 ks2 sa where "ks = ks1 @ ?c # ks2" "run wg (Drain # map Generate ks1) ?s1 = Some sa"
    "loadedChunks s2 ?c = Some (fst (wg (worldGen sa) ?c))" by blast
  moreover from this(3) have "fst (getChunk ?c False s2) = fst (wg (worldGen sa) ?c)"
    by (simp add: getChunk_def)
  ultimately show "\<exists>ks1 ks2 sa. ks = ks1 @ ?c # ks2 \<and>
      run wg (Drain # map Generate ks1) ?s1 = Some sa \<and>
      fst (getChunk ?c False s2) = fst (wg (worldGen sa) ?c)" by blast
qed

lemma requests_kept_step:
  assumes "exec wg a u = Some t" and "a \<noteq> Drain"
  shows "chunkRequests u \<subseteq> chunkRequests t"
proof (cases a)
  case (GetChunk cid r)
  with assms show ?thesis by (auto simp: getChunk_requests)
next
  case Drain
  with assms show ?thesis by simp
next
  case (Generate cid)
  with assms show ?thesis by (auto split: if_splits)
next
  case Commit
  with assms show ?thesis by (auto split: if_splits)
qed

lemma requests_kept_run:
  "run wg as u = Some t \<Longrightarrow> Drain \<notin> set as \<Longrightarrow> chunkRequests u \<subseteq> chunkRequests t"
proof (induction as arbitrary: u)
  case Nil
  then show ?case by simp
next
  case (Cons a as)
  then obtain v where v: "exec wg a u = Some v" "run wg as v = Some t"
    by (auto split: option.splits)
  from Cons.prems(2) have a: "a \<noteq> Drain" and as: "Drain \<notin> set as" by auto
  from requests_kept_step [OF v(1) a] Cons.IH [OF v(2) as] show ?case by blast
qed

lemma pending_not_generated:
  assumes "server_inv s" and "x \<in> chunkRequests s"
  shows "\<not> generated s x"
proof -
  from assms have "loadedChunks s x = None" "x \<notin> fst ` set (res s)"
    unfolding server_inv_def by auto
  then show ?thesis by (simp add: generated_def)
qed

text \<open>
  Claim C8. In a reachable state let a batch containing \<open>A\<close> be in progress, and let
  \<open>B\<close> be neither in that batch nor loaded. A request for \<open>B\<close> puts \<open>B\<close> into the
  pending set. As long as the worker does not drain, \<open>B\<close> stays pending, is not loaded and
  the generator is not called for it. Once the worker has passed two commits (the one of
  the batch in progress and the one of the next cycle), \<open>B\<close> is loaded and the generator
  has been called for it exactly once. The worker can always get there.
\<close>

theorem overlapping_request:
  assumes "run wg as0 (LocalServer g) = Some s"
    and "A \<in> chunkRequestsInProgress s" and "B \<notin> chunkRequestsInProgress s"
    and "loadedChunks s B = None"
  shows "B \<in> chunkRequests (snd (getChunk B True s)) \<and>
         (\<forall>as t. run wg as (snd (getChunk B True s)) = Some t \<and> Drain \<notin> set as \<longrightarrow>
            B \<in> chunkRequests t \<and> loadedChunks t B = None \<and> Generate B \<notin> set as) \<and>
         (\<forall>as t. run wg as (snd (getChunk B True s)) = Some t \<and> 2 \<le> count_list as Commit \<longrightarrow>
            loadedChunks t B \<noteq> None \<and> count_list as (Generate B) = 1) \<and>
         (\<exists>as t. run wg as (snd (getChunk B True s)) = Some t \<and> count_list as Commit = 2)"
proof -
  let ?s1 = "snd (getChunk B True s)"
  from server_inv_LocalServer assms(1) have inv: "server_inv s" by (rule server_inv_run)
  then have inv1: "server_inv ?s1" by (rule server_inv_getChunk)
  from assms(3,4) have p: "B \<in> chunkRequests ?s1" by (simp add: getChunk_requests)
  from inv1 p have ng: "\<not> generated ?s1 B" by (rule pending_not_generated)
  have pc: "pc ?s1 = Generating"
  proof (cases "pc s")
    case Waiting
    with inv assms(2) server_inv_Waiting [of s] show ?thesis by simp
  next
    case Generating
    then show ?thesis by simp
  qed
  have part2: "B \<in> chunkRequests t \<and> loadedChunks t B = None \<and> Generate B \<notin> set as"
    if h: "run wg as ?s1 = Some t \<and> Drain \<notin> set as" for as t
  proof -
    from h have r: "run wg as ?s1 = Some t" and nd: "Drain \<notin> set as" by simp_all
    from requests_kept_run [OF r nd] p have pt: "B \<in> chunkRequests t" by blast
    from inv1 r have "server_inv t" by (rule server_inv_run)
    from this pt have ngt: "\<not> generated t B" by (rule pending_not_generated)
    then have "loadedChunks t B = None" by (simp add: generated_def)
    moreover from generated_run [OF inv1 r, of B] ng ngt have "count_list as (Generate B) = 0"
      by simp
    then have "Generate B \<notin> set as" by (simp add: count_list_0_iff)
    ultimately show ?thesis using pt by simp
  qed
  have part3: "loadedChunks t B \<noteq> None \<and> count_list as (Generate B) = 1"
    if h: "run wg as ?s1 = Some t \<and> 2 \<le> count_list as Commit" for as t
  proof -
    from h have r: "run wg as ?s1 = Some t" and c: "2 \<le> count_list as Commit" by simp_all
    from p have "requested ?s1 B" by (simp add: requested_def)
    from served_after_two_commits [OF inv1 this r c] have l: "loadedChunks t B \<noteq> None" .
    then have "generated t B" by (simp add: generated_def)
    with generated_run [OF inv1 r, of B] ng have "count_list as (Generate B) = 1" by simp
    with l show ?thesis by simp
  qed
  from p have "chunkRequests ?s1 \<noteq> {}" by blast
  from two_commits [OF inv1 pc this, of wg]
  have part4: "\<exists>as t. run wg as ?s1 = Some t \<and> count_list as Commit = 2" .
  from p part2 part3 part4 show ?thesis by blast
qed

section \<open>Concrete runs\<close>

text \<open>
  The runs below use the generator \<open>counterWG\<close> and the keys \<open>{0,0,0}\<close>, \<open>{1,0,0}\<close> and
  \<open>{2,0,0}\<close>; each states the states it passes through.
\<close>

theorem request_dedup_witness:
  "run counterWG
     [GetChunk (ChunkID 0 0 0) True, GetChunk (ChunkID 0 0 0) True, Drain,
      GetChunk (ChunkID 0 0 0) True, Generate (ChunkID 0 0 0), Commit,
      GetChunk (ChunkID 1 0 0) True, Drain, Generate (ChunkID 1 0 0), Commit]
     (LocalServer 0) =
   Some \<lparr>chunkRequests = {}, chunkRequestsInProgress = {},
         loadedChunks = [ChunkID 0 0 0 \<mapsto> Ptr 0, ChunkID 1 0 0 \<mapsto> Ptr 1],
         worldGen = 2, pc = Waiting, res = []\<rparr> \<and>
   count_list
     [GetChunk (ChunkID 0 0 0) True, GetChunk (ChunkID 0 0 0) True, Drain,
      GetChunk (ChunkID 0 0 0) True, Generate (ChunkID 0 0 0), Commit,
      GetChunk (ChunkID 1 0 0) True, Drain, Generate (ChunkID 1 0 0), Commit]
     (Generate (ChunkID 0 0 0)) = 1 \<and>
   (\<exists>bs t. run counterWG
             ([GetChunk (ChunkID 0 0 0) True, GetChunk (ChunkID 0 0 0) True, Drain,
               GetChunk (ChunkID 0 0 0) True, Generate (ChunkID 0 0 0), Commit,
               GetChunk (ChunkID 1 0 0) True, Drain, Generate (ChunkID 1 0 0), Commit] @ bs)
             (LocalServer 0) = Some t \<and>
           count_list
             ([GetChunk (ChunkID 0 0 0) True, GetChunk (ChunkID 0 0 0) True, Drain,
               GetChunk (ChunkID 0 0 0) True, Generate (ChunkID 0 0 0), Commit,
               GetChunk (ChunkID 1 0 0) True, Drain, Generate (ChunkID 1 0 0), Commit] @ bs)
             (Generate (ChunkID 0 0 0)) = 1)"
proof -
  let ?as2 = "[GetChunk (ChunkID 0 0 0) True, Drain,
      GetChunk (ChunkID 0 0 0) True, Generate (ChunkID 0 0 0), Commit,
      GetChunk (ChunkID 1 0 0) True, Drain, Generate (ChunkID 1 0 0), Commit]"
  let ?as = "GetChunk (ChunkID 0 0 0) True # ?as2"
  have s: "run counterWG ?as (LocalServer 0) =
   Some \<lparr>chunkRequests = {}, chunkRequestsInProgress = {},
         loadedChunks = [ChunkID 0 0 0 \<mapsto> Ptr 0, ChunkID 1 0 0 \<mapsto> Ptr 1],
         worldGen = 2, pc = Waiting, res = []\<rparr>"
    by (simp add: model_defs)
  note th = request_dedup [OF s, of "ChunkID 0 0 0"]
  have h: "?as = [] @ GetChunk (ChunkID 0 0 0) True # ?as2 \<and> 2 \<le> count_list ?as2 Commit"
    by simp
  have m: "GetChunk (ChunkID 0 0 0) True \<in> set ?as" by simp
  from th [THEN conjunct2, THEN conjunct2, THEN conjunct1, rule_format, OF h]
  have c: "count_list ?as (Generate (ChunkID 0 0 0)) = 1" .
  from th [THEN conjunct2, THEN conjunct2, THEN conjunct2, rule_format, OF m]
  have e: "\<exists>bs t. run counterWG (?as @ bs) (LocalServer 0) = Some t \<and>
             count_list (?as @ bs) (Generate (ChunkID 0 0 0)) = 1" .
  from s c e show ?thesis by (intro conjI)
qed

theorem drain_snapshot_witness:
  "exec counterWG Drain
     \<lparr>chunkRequests = {ChunkID 0 0 0, ChunkID 1 0 0}, chunkRequestsInProgress = {},
      loadedChunks = [ChunkID 3 0 0 \<mapsto> Ptr 9], worldGen = 0, pc = Waiting, res = []\<rparr> =
   Some \<lparr>chunkRequests = {}, chunkRequestsInProgress = {ChunkID 0 0 0, ChunkID 1 0 0},
         loadedChunks = [ChunkID 3 0 0 \<mapsto> Ptr 9], worldGen = 0, pc = Generating,
         res = []\<rparr> \<and>
   run counterWG
     [GetChunk (ChunkID 2 0 0) True, Generate (ChunkID 1 0 0), GetChunk (ChunkID 0 0 0) True,
      GetChunk (ChunkID 3 0 0) True, GetChunk (ChunkID 4 0 0) False, Generate (ChunkID 0 0 0)]
     \<lparr>chunkRequests = {}, chunkRequestsInProgress = {ChunkID 0 0 0, ChunkID 1 0 0},
      loadedChunks = [ChunkID 3 0 0 \<mapsto> Ptr 9], worldGen = 0, pc = Generating, res = []\<rparr> =
   Some \<lparr>chunkRequests = {ChunkID 2 0 0},
         chunkRequestsInProgress = {ChunkID 0 0 0, ChunkID 1 0 0},
         loadedChunks = [ChunkID 3 0 0 \<mapsto> Ptr 9], worldGen = 2, pc = Generating,
         res = [(ChunkID 1 0 0, Ptr 0), (ChunkID 0 0 0, Ptr 1)]\<rparr> \<and>
   exec counterWG Commit
     \<lparr>chunkRequests = {ChunkID 2 0 0},
      chunkRequestsInProgress = {ChunkID 0 0 0, ChunkID 1 0 0},
      loadedChunks = [ChunkID 3 0 0 \<mapsto> Ptr 9], worldGen = 2, pc = Generating,
      res = [(ChunkID 1 0 0, Ptr 0), (ChunkID 0 0 0, Ptr 1)]\<rparr> \<noteq> None \<and>
   {ChunkID 2 0 0} =
     {k. GetChunk k True \<in>
           set [GetChunk (ChunkID 2 0 0) True, Generate (ChunkID 1 0 0),
                GetChunk (ChunkID 0 0 0) True, GetChunk (ChunkID 3 0 0) True,
                GetChunk (ChunkID 4 0 0) False, Generate (ChunkID 0 0 0)] \<and>
         k \<notin> {ChunkID 0 0 0, ChunkID 1 0 0} \<and> [ChunkID 3 0 0 \<mapsto> Ptr (9::nat)] k = None} \<and>
   count_list
     [GetChunk (ChunkID 2 0 0) True, Generate (ChunkID 1 0 0), GetChunk (ChunkID 0 0 0) True,
      GetChunk (ChunkID 3 0 0) True, GetChunk (ChunkID 4 0 0) False, Generate (ChunkID 0 0 0)]
     (Generate (ChunkID 0 0 0)) = 1 \<and>
   count_list
     [GetChunk (ChunkID 2 0 0) True, Generate (ChunkID 1 0 0), GetChunk (ChunkID 0 0 0) True,
      GetChunk (ChunkID 3 0 0) True, GetChunk (ChunkID 4 0 0) False, Generate (ChunkID 0 0 0)]
     (Generate (ChunkID 2 0 0)) = 0 \<and>
   (\<exists>ks t'. run counterWG
              ([GetChunk (ChunkID 2 0 0) True, Generate (ChunkID 1 0 0)] @ map Generate ks)
              \<lparr>chunkRequests = {}, chunkRequestsInProgress = {ChunkID 0 0 0, ChunkID 1 0 0},
               loadedChunks = [ChunkID 3 0 0 \<mapsto> Ptr 9], worldGen = 0, pc = Generating,
               res = []\<rparr> = Some t' \<and>
            exec counterWG Commit t' \<noteq> None)"
proof -
  let ?s = "\<lparr>chunkRequests = {ChunkID 0 0 0, ChunkID 1 0 0}, chunkRequestsInProgress = {},
      loadedChunks = [ChunkID 3 0 0 \<mapsto> Ptr 9], worldGen = 0::nat, pc = Waiting,
      res = [] :: (ChunkID \<times> nat ptr) list\<rparr>"
  let ?s' = "\<lparr>chunkRequests = {}, chunkRequestsInProgress = {ChunkID 0 0 0, ChunkID 1 0 0},
      loadedChunks = [ChunkID 3 0 0 \<mapsto> Ptr 9], worldGen = 0::nat, pc = Generating,
      res = [] :: (ChunkID \<times> nat ptr) list\<rparr>"
  let ?as = "[GetChunk (ChunkID 2 0 0) True, Generate (ChunkID 1 0 0),
      GetChunk (ChunkID 0 0 0) True, GetChunk (ChunkID 3 0 0) True,
      GetChunk (ChunkID 4 0 0) False, Generate (ChunkID 0 0 0)]"
  let ?t = "\<lparr>chunkRequests = {ChunkID 2 0 0},
      chunkRequestsInProgress = {ChunkID 0 0 0, ChunkID 1 0 0},
      loadedChunks = [ChunkID 3 0 0 \<mapsto> Ptr 9], worldGen = 2::nat, pc = Generating,
      res = [(ChunkID 1 0 0, Ptr 0), (ChunkID 0 0 0, Ptr (1::nat))]\<rparr>"
  let ?bs = "[GetChunk (ChunkID 2 0 0) True, Generate (ChunkID 1 0 0)]"
  let ?u = "\<lparr>chunkRequests = {ChunkID 2 0 0},
      chunkRequestsInProgress = {ChunkID 0 0 0, ChunkID 1 0 0},
      loadedChunks = [ChunkID 3 0 0 \<mapsto> Ptr 9], worldGen = 1::nat, pc = Generating,
      res = [(ChunkID 1 0 0, Ptr (0::nat))]\<rparr>"
  have d: "exec counterWG Drain ?s = Some ?s'" by (simp add: model_defs)
  have r: "run counterWG ?as ?s' = Some ?t \<and> Commit \<notin> set ?as" by (simp add: model_defs)
  have q: "run counterWG ?bs ?s' = Some ?u \<and> Commit \<notin> set ?bs" by (simp add: model_defs)
  have c: "exec counterWG Commit ?t \<noteq> None" by simp
  have f: "finite (chunkRequests ?s)" by simp
  note gen = drain_snapshot [OF d, THEN conjunct2, THEN conjunct2, THEN conjunct2, rule_format]
  note th = gen [OF r]
  from th have p: "chunkRequests ?t =
      {k. GetChunk k True \<in> set ?as \<and> k \<notin> chunkRequests ?s \<and> loadedChunks ?s k = None}"
    by blast
  from th c have cnt: "\<forall>k. count_list ?as (Generate k) = (if k \<in> chunkRequests ?s then 1 else 0)"
    by blast
  from cnt [rule_format, of "ChunkID 0 0 0"]
  have c0: "count_list ?as (Generate (ChunkID 0 0 0)) = 1" by simp
  from cnt [rule_format, of "ChunkID 2 0 0"]
  have c2: "count_list ?as (Generate (ChunkID 2 0 0)) = 0" by simp
  from gen [OF q] f
  have e: "\<exists>ks t'. run counterWG (?bs @ map Generate ks) ?s' = Some t' \<and>
             exec counterWG Commit t' \<noteq> None"
    by blast
  from p have p': "{ChunkID 2 0 0} =
      {k. GetChunk k True \<in> set ?as \<and> k \<notin> {ChunkID 0 0 0, ChunkID 1 0 0} \<and>
          [ChunkID 3 0 0 \<mapsto> Ptr (9::nat)] k = None}"
    by (simp only: server.simps)
  from d r c p' c0 c2 e show ?thesis by (intro conjI) simp_all
qed

text \<open>
  Claim C5 as stated does not hold: the commit is not per chunk. In the state reached when the generator has been called
  for both keys of a batch, storing the pair of \<open>{0,0,0}\<close> (the body of the loop of
  line 198) binds the key in the loaded map and leaves it in the in-progress set; and
  the second critical section as a whole empties the in-progress set, so what it leaves
  is not the in-progress set without \<open>{0,0,0}\<close>: \<open>{1,0,0}\<close> is gone as well.
\<close>

theorem commit_individual_counterexample:
  "run counterWG
     [GetChunk (ChunkID 0 0 0) True, GetChunk (ChunkID 1 0 0) True, Drain,
      Generate (ChunkID 0 0 0), Generate (ChunkID 1 0 0)]
     (LocalServer 0) =
   Some \<lparr>chunkRequests = {}, chunkRequestsInProgress = {ChunkID 1 0 0, ChunkID 0 0 0},
         loadedChunks = Map.empty, worldGen = 2, pc = Generating,
         res = [(ChunkID 0 0 0, Ptr 0), (ChunkID 1 0 0, Ptr 1)]\<rparr> \<and>
   loadedChunks
     (store (ChunkID 0 0 0, Ptr 0)
        \<lparr>chunkRequests = {}, chunkRequestsInProgress = {ChunkID 1 0 0, ChunkID 0 0 0},
         loadedChunks = Map.empty, worldGen = 2::nat, pc = Generating,
         res = [(ChunkID 0 0 0, Ptr 0), (ChunkID 1 0 0, Ptr (1::nat))]\<rparr>)
     (ChunkID 0 0 0) = Some (Ptr 0) \<and>
   ChunkID 0 0 0 \<in> chunkRequestsInProgress
     (store (ChunkID 0 0 0, Ptr 0)
        \<lparr>chunkRequests = {}, chunkRequestsInProgress = {ChunkID 1 0 0, ChunkID 0 0 0},
         loadedChunks = Map.empty, worldGen = 2::nat, pc = Generating,
         res = [(ChunkID 0 0 0, Ptr 0), (ChunkID 1 0 0, Ptr (1::nat))]\<rparr>) \<and>
   exec counterWG Commit
     \<lparr>chunkRequests = {}, chunkRequestsInProgress = {ChunkID 1 0 0, ChunkID 0 0 0},
      loadedChunks = Map.empty, worldGen = 2, pc = Generating,
      res = [(ChunkID 0 0 0, Ptr 0), (ChunkID 1 0 0, Ptr 1)]\<rparr> =
   Some \<lparr>chunkRequests = {}, chunkRequestsInProgress = {},
         loadedChunks = [ChunkID 0 0 0 \<mapsto> Ptr 0, ChunkID 1 0 0 \<mapsto> Ptr 1],
         worldGen = 2, pc = Waiting, res = []\<rparr> \<and>
   chunkRequestsInProgress
     \<lparr>chunkRequests = {}, chunkRequestsInProgress = {},
      loadedChunks = [ChunkID 0 0 0 \<mapsto> Ptr 0, ChunkID 1 0 0 \<mapsto> Ptr (1::nat)],
      worldGen = 2::nat, pc = Waiting, res = [] :: (ChunkID \<times> nat ptr) list\<rparr> \<noteq>
   chunkRequestsInProgress
     \<lparr>chunkRequests = {}, chunkRequestsInProgress = {ChunkID 1 0 0, ChunkID 0 0 0},
      loadedChunks = Map.empty, worldGen = 2::nat, pc = Generating,
      res = [(ChunkID 0 0 0, Ptr 0), (ChunkID 1 0 0, Ptr (1::nat))]\<rparr> - {ChunkID 0 0 0}"
  by (simp add: model_defs)

theorem commit_batch_witness:
  "run counterWG
     [GetChunk (ChunkID 0 0 0) True, GetChunk (ChunkID 1 0 0) True, Drain,
      Generate (ChunkID 0 0 0), Generate (ChunkID 1 0 0)]
     (LocalServer 0) =
   Some \<lparr>chunkRequests = {}, chunkRequestsInProgress = {ChunkID 1 0 0, ChunkID 0 0 0},
         loadedChunks = Map.empty, worldGen = 2, pc = Generating,
         res = [(ChunkID 0 0 0, Ptr 0), (ChunkID 1 0 0, Ptr 1)]\<rparr> \<and>
   exec counterWG Commit
     \<lparr>chunkRequests = {}, chunkRequestsInProgress = {ChunkID 1 0 0, ChunkID 0 0 0},
      loadedChunks = Map.empty, worldGen = 2, pc = Generating,
      res = [(ChunkID 0 0 0, Ptr 0), (ChunkID 1 0 0, Ptr 1)]\<rparr> =
   Some \<lparr>chunkRequests = {}, chunkRequestsInProgress = {},
         loadedChunks = [ChunkID 0 0 0 \<mapsto> Ptr 0, ChunkID 1 0 0 \<mapsto> Ptr 1],
         worldGen = 2, pc = Waiting, res = []\<rparr> \<and>
   [ChunkID 0 0 0 \<mapsto> Ptr 0, ChunkID 1 0 0 \<mapsto> Ptr (1::nat)] (ChunkID 0 0 0) = Some (Ptr 0) \<and>
   [ChunkID 0 0 0 \<mapsto> Ptr 0, ChunkID 1 0 0 \<mapsto> Ptr (1::nat)] (ChunkID 1 0 0) = Some (Ptr 1) \<and>
   [ChunkID 0 0 0 \<mapsto> Ptr 0, ChunkID 1 0 0 \<mapsto> Ptr (1::nat)] (ChunkID 2 0 0) = None"
proof -
  let ?s = "\<lparr>chunkRequests = {}, chunkRequestsInProgress = {ChunkID 1 0 0, ChunkID 0 0 0},
         loadedChunks = Map.empty, worldGen = 2::nat, pc = Generating,
         res = [(ChunkID 0 0 0, Ptr 0), (ChunkID 1 0 0, Ptr (1::nat))]\<rparr>"
  let ?s' = "\<lparr>chunkRequests = {}, chunkRequestsInProgress = {},
         loadedChunks = [ChunkID 0 0 0 \<mapsto> Ptr 0, ChunkID 1 0 0 \<mapsto> Ptr (1::nat)],
         worldGen = 2::nat, pc = Waiting, res = [] :: (ChunkID \<times> nat ptr) list\<rparr>"
  have s: "run counterWG
     [GetChunk (ChunkID 0 0 0) True, GetChunk (ChunkID 1 0 0) True, Drain,
      Generate (ChunkID 0 0 0), Generate (ChunkID 1 0 0)]
     (LocalServer 0) = Some ?s"
    by (simp add: model_defs)
  have e: "exec counterWG Commit ?s = Some ?s'"
    by (simp add: model_defs)
  note th = commit_batch [OF s e]
  from th have a: "loadedChunks ?s' (ChunkID 0 0 0) = Some (Ptr 0)" by simp
  from th have b: "loadedChunks ?s' (ChunkID 1 0 0) = Some (Ptr 1)" by simp
  from th have c: "loadedChunks ?s' (ChunkID 2 0 0) = loadedChunks ?s (ChunkID 2 0 0)" by simp
  from s e a b c show ?thesis by (intro conjI) simp_all
qed

theorem request_then_cycle_witness:
  "fst (getChunk (ChunkID 0 0 0) False
          (snd (getChunk (ChunkID 0 0 0) True (LocalServer 0 :: (ChunkID, nat, nat) server)))) = NULL \<and>
   run counterWG (Drain # map Generate [ChunkID 0 0 0] @ [Commit])
     (snd (getChunk (ChunkID 0 0 0) True (LocalServer 0))) =
   Some \<lparr>chunkRequests = {}, chunkRequestsInProgress = {},
         loadedChunks = [ChunkID 0 0 0 \<mapsto> Ptr 0], worldGen = 1, pc = Waiting, res = []\<rparr> \<and>
   fst (getChunk (ChunkID 0 0 0) False
          \<lparr>chunkRequests = {}, chunkRequestsInProgress = {},
           loadedChunks = [ChunkID 0 0 0 \<mapsto> Ptr 0], worldGen = 1::nat, pc = Waiting,
           res = []\<rparr>) = Ptr (0::nat) \<and>
   fst (counterWG 0 (ChunkID 0 0 0)) = Ptr 0 \<and>
   (\<exists>ks1 ks2 sa. [ChunkID 0 0 0] = ks1 @ ChunkID 0 0 0 # ks2 \<and>
      run counterWG (Drain # map Generate ks1)
        (snd (getChunk (ChunkID 0 0 0) True (LocalServer 0))) = Some sa \<and>
      fst (getChunk (ChunkID 0 0 0) False
             \<lparr>chunkRequests = {}, chunkRequestsInProgress = {},
              loadedChunks = [ChunkID 0 0 0 \<mapsto> Ptr 0], worldGen = 1::nat, pc = Waiting,
              res = []\<rparr>) = fst (counterWG (worldGen sa) (ChunkID 0 0 0)))"
proof -
  let ?s = "LocalServer 0 :: (ChunkID, nat, nat) server"
  let ?s2 = "\<lparr>chunkRequests = {}, chunkRequestsInProgress = {},
         loadedChunks = [ChunkID 0 0 0 \<mapsto> Ptr 0], worldGen = 1::nat, pc = Waiting,
         res = [] :: (ChunkID \<times> nat ptr) list\<rparr>"
  have h1: "ChunkID 0 0 0 \<notin> chunkRequests ?s" and h2: "ChunkID 0 0 0 \<notin> chunkRequestsInProgress ?s"
    and h3: "loadedChunks ?s (ChunkID 0 0 0) = None"
    by (simp_all add: LocalServer_def)
  have r: "run counterWG (Drain # map Generate [ChunkID 0 0 0] @ [Commit])
             (snd (getChunk (ChunkID 0 0 0) True ?s)) = Some ?s2"
    by (simp add: model_defs)
  note th = request_then_cycle [OF h1 h2 h3, of counterWG]
  from th have n: "fst (getChunk (ChunkID 0 0 0) False (snd (getChunk (ChunkID 0 0 0) True ?s))) = NULL"
    by (rule conjunct1)
  note ex = th [THEN conjunct2, rule_format, OF r]
  have v: "fst (getChunk (ChunkID 0 0 0) False ?s2) = Ptr 0" by (simp add: getChunk_def)
  have w: "fst (counterWG 0 (ChunkID 0 0 0)) = Ptr 0" by (simp add: counterWG_def)
  from n r v w ex show ?thesis by (intro conjI)
qed

theorem overlapping_request_witness:
  "run counterWG [GetChunk (ChunkID 0 0 0) True, Drain] (LocalServer 0) =
   Some \<lparr>chunkRequests = {}, chunkRequestsInProgress = {ChunkID 0 0 0},
         loadedChunks = Map.empty, worldGen = 0, pc = Generating, res = []\<rparr> \<and>
   snd (getChunk (ChunkID 1 0 0) True
          \<lparr>chunkRequests = {}, chunkRequestsInProgress = {ChunkID 0 0 0},
           loadedChunks = Map.empty, worldGen = 0::nat, pc = Generating,
           res = [] :: (ChunkID \<times> nat ptr) list\<rparr>) =
   \<lparr>chunkRequests = {ChunkID 1 0 0}, chunkRequestsInProgress = {ChunkID 0 0 0},
    loadedChunks = Map.empty, worldGen = 0, pc = Generating, res = []\<rparr> \<and>
   run counterWG [Generate (ChunkID 0 0 0), Commit]
     \<lparr>chunkRequests = {ChunkID 1 0 0}, chunkRequestsInProgress = {ChunkID 0 0 0},
      loadedChunks = Map.empty, worldGen = 0, pc = Generating, res = []\<rparr> =
   Some \<lparr>chunkRequests = {ChunkID 1 0 0}, chunkRequestsInProgress = {},
         loadedChunks = [ChunkID 0 0 0 \<mapsto> Ptr 0], worldGen = 1, pc = Waiting, res = []\<rparr> \<and>
   run counterWG [Generate (ChunkID 0 0 0), Commit, Drain, Generate (ChunkID 1 0 0), Commit]
     \<lparr>chunkRequests = {ChunkID 1 0 0}, chunkRequestsInProgress = {ChunkID 0 0 0},
      loadedChunks = Map.empty, worldGen = 0, pc = Generating, res = []\<rparr> =
   Some \<lparr>chunkRequests = {}, chunkRequestsInProgress = {},
         loadedChunks = [ChunkID 0 0 0 \<mapsto> Ptr 0, ChunkID 1 0 0 \<mapsto> Ptr 1],
         worldGen = 2, pc = Waiting, res = []\<rparr> \<and>
   [ChunkID 0 0 0 \<mapsto> Ptr 0, ChunkID 1 0 0 \<mapsto> Ptr (1::nat)] (ChunkID 1 0 0) \<noteq> None \<and>
   count_list [Generate (ChunkID 0 0 0), Commit, Drain, Generate (ChunkID 1 0 0), Commit]
     (Generate (ChunkID 1 0 0)) = 1 \<and>
   Generate (ChunkID 1 0 0) \<notin> set [Generate (ChunkID 0 0 0), Commit]"
proof -
  let ?s = "\<lparr>chunkRequests = {}, chunkRequestsInProgress = {ChunkID 0 0 0},
         loadedChunks = Map.empty, worldGen = 0::nat, pc = Generating,
         res = [] :: (ChunkID \<times> nat ptr) list\<rparr>"
  let ?s1 = "\<lparr>chunkRequests = {ChunkID 1 0 0}, chunkRequestsInProgress = {ChunkID 0 0 0},
         loadedChunks = Map.empty, worldGen = 0::nat, pc = Generating,
         res = [] :: (ChunkID \<times> nat ptr) list\<rparr>"
  let ?t1 = "\<lparr>chunkRequests = {ChunkID 1 0 0}, chunkRequestsInProgress = {},
         loadedChunks = [ChunkID 0 0 0 \<mapsto> Ptr 0], worldGen = 1::nat, pc = Waiting,
         res = [] :: (ChunkID \<times> nat ptr) list\<rparr>"
  let ?t2 = "\<lparr>chunkRequests = {}, chunkRequestsInProgress = {},
         loadedChunks = [ChunkID 0 0 0 \<mapsto> Ptr 0, ChunkID 1 0 0 \<mapsto> Ptr 1],
         worldGen = 2::nat, pc = Waiting, res = [] :: (ChunkID \<times> nat ptr) list\<rparr>"
  let ?as1 = "[Generate (ChunkID 0 0 0), Commit]"
  let ?as2 = "[Generate (ChunkID 0 0 0), Commit, Drain, Generate (ChunkID 1 0 0), Commit]"
  have s: "run counterWG [GetChunk (ChunkID 0 0 0) True, Drain] (LocalServer 0) = Some ?s"
    by (simp add: model_defs)
  have a: "ChunkID 0 0 0 \<in> chunkRequestsInProgress ?s"
    and b: "ChunkID 1 0 0 \<notin> chunkRequestsInProgress ?s"
    and l: "loadedChunks ?s (ChunkID 1 0 0) = None"
    by simp_all
  have s1: "snd (getChunk (ChunkID 1 0 0) True ?s) = ?s1" by (simp add: getChunk_def)
  have r1: "run counterWG ?as1 ?s1 = Some ?t1" by (simp add: model_defs)
  have r2: "run counterWG ?as2 ?s1 = Some ?t2" by (simp add: model_defs)
  note th = overlapping_request [OF s a b l, unfolded s1]
  have h1: "run counterWG ?as1 ?s1 = Some ?t1 \<and> Drain \<notin> set ?as1" using r1 by simp
  have h2: "run counterWG ?as2 ?s1 = Some ?t2 \<and> 2 \<le> count_list ?as2 Commit" using r2 by simp
  from th [THEN conjunct2, THEN conjunct1, rule_format, OF h1]
  have c1: "Generate (ChunkID 1 0 0) \<notin> set ?as1" by simp
  from th [THEN conjunct2, THEN conjunct2, THEN conjunct1, rule_format, OF h2]
  have c2: "loadedChunks ?t2 (ChunkID 1 0 0) \<noteq> None"
    and c3: "count_list ?as2 (Generate (ChunkID 1 0 0)) = 1" by simp_all
  from s s1 r1 r2 c1 c2 c3 show ?thesis by (intro conjI) simp_all
qed

end
